theory Spec2Isabelle
  imports Complex_Main "HOL-Library.AList"
begin

section \<open>Data model\<close>

text \<open>
  The exceptions the modelled Python can raise.  \<open>LookupError\<close> is Python's common base
  class of \<open>KeyError\<close> and \<open>IndexError\<close>: the receiver map and the HSD assignment
  are indexed with \<open>r[j]\<close> and \<open>hsd_ids[j]\<close> and may be dictionaries or arrays.
  \<open>IndexError\<close> is an out-of-range access to a numpy array, \<open>ValueError\<close> is what
  \<open>np.choose\<close> raises for an index outside the choice list, and
  \<open>ZeroDivisionError\<close> is a float division by zero.
\<close>

datatype error = LookupError | IndexError | ValueError | ZeroDivisionError

text \<open>
  The part of the mesh object that the three functions read.  Node identifiers are
  natural numbers; a neighbour entry is an integer because the mesh writes \<open>-1\<close> for a
  missing neighbour.  The two neighbour arrays have shape \<open>(number_of_nodes, 4)\<close>, so a
  row is a 4-tuple.  \<open>topographic_elevation\<close> is the array
  \<open>grid.at_node['topographic__elevation']\<close>.
\<close>

record grid =
  number_of_nodes :: nat
  core_nodes :: "nat list"
  topographic_elevation :: "real list"
  neighbors_at_node :: "(int \<times> int \<times> int \<times> int) list"
  diagonals_at_node :: "(int \<times> int \<times> int \<times> int) list"

text \<open>
  The three structures that \<open>track_source\<close> mutates.  \<open>flow_accum\<close> is the numpy
  array \<open>np.zeros(number_of_nodes)\<close>; \<open>hsd_upstr\<close> is a dictionary, kept as an
  association list in insertion order (\<open>AList.update\<close> replaces the value of a present
  key in place and appends an absent key at the end).
\<close>

record 'h tracker =
  alr_counted :: "nat list"
  flow_accum :: "nat list"
  hsd_upstr :: "(nat \<times> 'h list) list"

section \<open>SourceTracker: \<open>track_source\<close>\<close>

text \<open>One pass through the body of the \<open>while True\<close> loop ends in one of three ways.\<close>

datatype 'h outcome =
    Break "'h tracker"
  | Continue nat nat "'h list" "'h tracker"
  | Raise error

text \<open>
  The middle of the loop body (source lines 93 to 107) for the node \<open>j\<close>: a node whose
  \<open>flow_accum\<close> is still 0 is counted and its identifier joins the buffer; then
  \<open>a\<close> is added to \<open>flow_accum[j]\<close> and a copy of the buffer is appended to
  \<open>hsd_upstr[j]\<close>, or becomes it when \<open>j\<close> is not a key yet.  The counter \<open>a\<close> is
  a Python float that only ever holds whole numbers, and the entries of \<open>flow_accum\<close>
  are 64-bit integers; both are natural numbers here.  The result is the new \<open>a\<close>, the
  new \<open>stream_buffer\<close> and the new structures.
\<close>

definition visit_node ::
  "(nat \<rightharpoonup> 'h) \<Rightarrow> nat \<Rightarrow> nat \<Rightarrow> 'h list \<Rightarrow> 'h tracker \<Rightarrow> error + nat \<times> 'h list \<times> 'h tracker" where
  "visit_node hsd_ids j a stream_buffer st =
    (if \<not> j < length (flow_accum st) then Inl IndexError
     else
       (case (if flow_accum st ! j = 0
              then (case hsd_ids j of
                      None \<Rightarrow> Inl LookupError
                    | Some h \<Rightarrow> Inr (a + 1, alr_counted st @ [j], stream_buffer @ [h]))
              else Inr (a, alr_counted st, stream_buffer)) of
          Inl e \<Rightarrow> Inl e
        | Inr (a', alr', buf') \<Rightarrow>
           Inr (a', buf',
                \<lparr>alr_counted = alr',
                 flow_accum = (flow_accum st)[j := flow_accum st ! j + a'],
                 hsd_upstr =
                   (case map_of (hsd_upstr st) j of
                      Some old \<Rightarrow> AList.update j (old @ buf') (hsd_upstr st)
                    | None \<Rightarrow> AList.update j buf' (hsd_upstr st))\<rparr>)))"

text \<open>
  The body of the \<open>while True\<close> loop (source lines 84 to 114), from the loop variables
  \<open>j\<close>, \<open>switch_i\<close>, \<open>a\<close>, \<open>stream_buffer\<close> and the mutable structures.
  \<open>Continue\<close> carries the loop variables of the next pass, in which \<open>switch_i\<close>
  is always \<open>False\<close>.
\<close>

definition segment_step ::
  "nat list \<Rightarrow> (nat \<rightharpoonup> nat) \<Rightarrow> (nat \<rightharpoonup> 'h) \<Rightarrow> nat \<Rightarrow> bool \<Rightarrow> nat \<Rightarrow> 'h list \<Rightarrow> 'h tracker
    \<Rightarrow> 'h outcome" where
  "segment_step core r hsd_ids j switch_i a stream_buffer st =
    (case (if switch_i then Some j else r j) of
       None \<Rightarrow> Raise LookupError
     | Some j' \<Rightarrow>
        if \<not> switch_i \<and> j' \<notin> set core then Break st
        else
          (case visit_node hsd_ids j' a stream_buffer st of
             Inl e \<Rightarrow> Raise e
           | Inr (a', buf', st') \<Rightarrow>
              (case r j' of
                 None \<Rightarrow> Raise LookupError
               | Some rj \<Rightarrow> if rj = j' then Break st' else Continue j' a' buf' st')))"

text \<open>
  The \<open>while True\<close> loop itself.  It has no bound in the source, so it is a partial
  function: \<open>None\<close> means that the loop never ends.
\<close>

partial_function (option) segment_loop ::
  "nat list \<Rightarrow> (nat \<rightharpoonup> nat) \<Rightarrow> (nat \<rightharpoonup> 'h) \<Rightarrow> nat \<Rightarrow> bool \<Rightarrow> nat \<Rightarrow> 'h list \<Rightarrow> 'h tracker
    \<Rightarrow> (error + 'h tracker) option" where
  "segment_loop core r hsd_ids j switch_i a stream_buffer st =
    (case segment_step core r hsd_ids j switch_i a stream_buffer st of
       Raise e \<Rightarrow> Some (Inl e)
     | Break st' \<Rightarrow> Some (Inr st')
     | Continue j' a' buf' st' \<Rightarrow> segment_loop core r hsd_ids j' False a' buf' st')"

text \<open>Check 2 of the outer loop (source lines 68 to 72): the visited node is a sink.\<close>

definition visit_sink :: "(nat \<rightharpoonup> 'h) \<Rightarrow> nat \<Rightarrow> 'h tracker \<Rightarrow> error + 'h tracker" where
  "visit_sink hsd_ids i st =
    (case hsd_ids i of
       None \<Rightarrow> Inl LookupError
     | Some h \<Rightarrow>
        if \<not> i < length (flow_accum st) then Inl IndexError
        else Inr \<lparr>alr_counted = alr_counted st @ [i],
                  flow_accum = (flow_accum st)[i := flow_accum st ! i + 1],
                  hsd_upstr = AList.update i [h] (hsd_upstr st)\<rparr>)"

text \<open>The \<open>for i in sor_z\<close> loop (source lines 62 to 114).\<close>

fun track_loop ::
  "nat list \<Rightarrow> (nat \<rightharpoonup> nat) \<Rightarrow> (nat \<rightharpoonup> 'h) \<Rightarrow> nat list \<Rightarrow> 'h tracker
    \<Rightarrow> (error + 'h tracker) option" where
  "track_loop core r hsd_ids [] st = Some (Inr st)"
| "track_loop core r hsd_ids (i # sor_z) st =
    (if i \<in> set (alr_counted st) then track_loop core r hsd_ids sor_z st
     else
       (case r i of
          None \<Rightarrow> Some (Inl LookupError)
        | Some ri \<Rightarrow>
           if ri = i then
             (case visit_sink hsd_ids i st of
                Inl e \<Rightarrow> Some (Inl e)
              | Inr st' \<Rightarrow> track_loop core r hsd_ids sor_z st')
           else
             (case segment_loop core r hsd_ids i True 0 [] st of
                None \<Rightarrow> None
              | Some (Inl e) \<Rightarrow> Some (Inl e)
              | Some (Inr st') \<Rightarrow> track_loop core r hsd_ids sor_z st')))"

text \<open>
  \<open>np.argsort\<close>: the positions of a list in ascending order of their values.  Equal
  values are kept in their original order here; numpy's default sort does not promise
  any order for them.  Every general theorem about \<open>track_loop\<close> below holds for any
  visiting order, so it does not depend on this choice.
\<close>

definition argsort :: "real list \<Rightarrow> nat list" where
  "argsort xs = sort_key (\<lambda>k. xs ! k) [0..<length xs]"

text \<open>
  \<open>track_source\<close> (source lines 50 to 115).  \<open>z[core_nodes]\<close> raises
  \<open>IndexError\<close> when a core node is not a position of the elevation array.
\<close>

definition sor_z_of :: "grid \<Rightarrow> nat list" where
  "sor_z_of g =
    (let z = topographic_elevation g;
         core_elev = map (\<lambda>n. z ! n) (core_nodes g)
     in map (\<lambda>k. core_nodes g ! k) (rev (argsort core_elev)))"

definition track_source ::
  "grid \<Rightarrow> (nat \<rightharpoonup> nat) \<Rightarrow> (nat \<rightharpoonup> 'h) \<Rightarrow> (error + (nat \<times> 'h list) list \<times> nat list) option" where
  "track_source g r hsd_ids =
    (if \<not> list_all (\<lambda>n. n < length (topographic_elevation g)) (core_nodes g)
     then Some (Inl IndexError)
     else
       (case track_loop (core_nodes g) r hsd_ids (sor_z_of g)
               \<lparr>alr_counted = [], flow_accum = replicate (number_of_nodes g) 0, hsd_upstr = []\<rparr> of
          None \<Rightarrow> None
        | Some (Inl e) \<Rightarrow> Some (Inl e)
        | Some (Inr st) \<Rightarrow> Some (Inr (hsd_upstr st, flow_accum st))))"

section \<open>ContributionAggregator: \<open>find_unique_upstream_hsd_ids_and_fractions\<close>\<close>

text \<open>
  A \<open>Counter\<close> is a dictionary from identifiers to counts.  Reading an absent key gives
  0, so \<open>cnt[num] += 1\<close> enters an absent key with count 1 and raises the count of a
  present key.  The association list holds the entries in the order in which they were
  entered.  That is not the order in which \<open>cnt.keys()\<close> lists the keys: the language
  leaves that order to the interpreter (Python 2, in which this repository is written,
  lists the keys in the order of the hash table; from Python 3.7 on they are listed in the
  order of entry).  The order is therefore a parameter \<open>keys_of\<close> of the model:
  \<open>keys_of cnt\<close> is the list \<open>cnt.keys()\<close>.
\<close>

definition counter_get :: "('a \<times> nat) list \<Rightarrow> 'a \<Rightarrow> nat" where
  "counter_get cnt k = (case map_of cnt k of None \<Rightarrow> 0 | Some c \<Rightarrow> c)"

definition counter_incr :: "'a \<Rightarrow> ('a \<times> nat) list \<Rightarrow> ('a \<times> nat) list" where
  "counter_incr num cnt = AList.update num (counter_get cnt num + 1) cnt"

text \<open>
  The comprehension \<open>[s/float(sum(buf)) for s in buf]\<close> (source line 133): the division
  is evaluated once for every element, and dividing by \<open>0.0\<close> raises.  Fractions are exact
  real numbers here; rounding of floating-point division is not modelled.
\<close>

fun fractions :: "nat list \<Rightarrow> nat \<Rightarrow> error + real list" where
  "fractions [] denom = Inr []"
| "fractions (s # buf) denom =
    (if denom = 0 then Inl ZeroDivisionError
     else (case fractions buf denom of
             Inl e \<Rightarrow> Inl e
           | Inr es \<Rightarrow> Inr (real s / real denom # es)))"

text \<open>
  The \<open>for ke in hsd_upstr.keys()\<close> loop (source lines 124 to 134) over the remaining
  keys, with the two dictionaries it returns; \<open>upstr\<close> is the argument \<open>hsd_upstr\<close>.
  \<open>cnt.keys()\<close> is evaluated twice (source lines 128 and 130) on a counter that is not
  changed in between, so both times it is the same list \<open>keys_of cnt\<close>.  The dictionary
  \<open>C\<close> of the source is written and never read, so it is left out.  The results are
  dictionaries, read with \<open>map_of\<close>: every key of \<open>hsd_upstr\<close> is handled once, so the
  order in which the loop takes the keys does not show in them.
\<close>

fun aggregate_loop ::
  "(('h \<times> nat) list \<Rightarrow> 'h list) \<Rightarrow> (nat \<times> 'h list) list \<Rightarrow> nat list
    \<Rightarrow> (nat \<times> 'h list) list \<times> (nat \<times> real list) list
    \<Rightarrow> error + (nat \<times> 'h list) list \<times> (nat \<times> real list) list" where
  "aggregate_loop keys_of upstr [] (uniq_ids, coeff) = Inr (uniq_ids, coeff)"
| "aggregate_loop keys_of upstr (ke # kes) (uniq_ids, coeff) =
    (case map_of upstr ke of
       None \<Rightarrow> Inl LookupError
     | Some nums \<Rightarrow>
        let cnt = fold counter_incr nums [];
            keys = keys_of cnt;
            buf = map (counter_get cnt) keys
        in (case fractions buf (sum_list buf) of
              Inl e \<Rightarrow> Inl e
            | Inr e \<Rightarrow>
               aggregate_loop keys_of upstr kes
                 (AList.update ke keys uniq_ids, AList.update ke e coeff)))"

definition find_unique_upstream_hsd_ids_and_fractions ::
  "(('h \<times> nat) list \<Rightarrow> 'h list) \<Rightarrow> (nat \<times> 'h list) list
    \<Rightarrow> error + (nat \<times> 'h list) list \<times> (nat \<times> real list) list" where
  "find_unique_upstream_hsd_ids_and_fractions keys_of upstr =
     aggregate_loop keys_of upstr (map fst upstr) ([], [])"

text \<open>
  Two ways of listing the keys.  \<open>insertion_order\<close> lists them in the order of entry, as
  the dictionaries of Python 3.7 do.  \<open>ascending_order\<close> lists keys that are natural
  numbers from the smallest to the largest, as CPython 2.7 lists a few small integers: an
  integer is its own hash, and the keys are listed by their place in the hash table.
\<close>

definition insertion_order :: "('a \<times> nat) list \<Rightarrow> 'a list" where
  "insertion_order cnt = map fst cnt"

definition ascending_order :: "(nat \<times> nat) list \<Rightarrow> nat list" where
  "ascending_order cnt = sort (map fst cnt)"

section \<open>FlowDirectionDecoder: \<open>convert_arc_flow_directions_to_landlab_node_ids\<close>\<close>

text \<open>The whole part of the base-2 logarithm of a positive number.\<close>

fun floor_log2 :: "nat \<Rightarrow> nat" where
  "floor_log2 n = (if n < 2 then 0 else Suc (floor_log2 (n div 2)))"

declare floor_log2.simps [simp del]

text \<open>
  \<open>np.log2(c).astype('int')\<close> for one integer code \<open>c\<close> (source lines 27 and 28).  The
  cast cuts the fraction off.  For \<open>c \<le> 0\<close> the logarithm is \<open>-inf\<close> or \<open>nan\<close>
  and numpy only warns; the cast of either then gives the smallest 64-bit integer.
\<close>

definition log2_astype_int :: "int \<Rightarrow> int" where
  "log2_astype_int c = (if c \<le> 0 then - (2 ^ 63) else int (floor_log2 (nat c)))"

text \<open>\<open>np.fliplr\<close> on an array with four columns: every row is reversed.\<close>

definition fliplr :: "('a \<times> 'a \<times> 'a \<times> 'a) list \<Rightarrow> ('a \<times> 'a \<times> 'a \<times> 'a) list" where
  "fliplr rows = map (\<lambda>(c0, c1, c2, c3). (c3, c2, c1, c0)) rows"

text \<open>\<open>np.hsplit(rows, 4)\<close> on an array with four columns: the list of its columns.\<close>

definition hsplit :: "('a \<times> 'a \<times> 'a \<times> 'a) list \<Rightarrow> 'a list list" where
  "hsplit rows =
    [map (\<lambda>(c0, c1, c2, c3). c0) rows, map (\<lambda>(c0, c1, c2, c3). c1) rows,
     map (\<lambda>(c0, c1, c2, c3). c2) rows, map (\<lambda>(c0, c1, c2, c3). c3) rows]"

text \<open>
  \<open>np.hstack\<close> of single-column arrays: the array whose rows take one entry of every
  column.  Columns of different heights raise \<open>ValueError\<close>.
\<close>

definition hstack :: "'a list list \<Rightarrow> error + 'a list list" where
  "hstack cols =
    (case cols of
       [] \<Rightarrow> Inl ValueError
     | c # cs \<Rightarrow>
        if list_all (\<lambda>d. length d = length c) cs
        then Inr (map (\<lambda>i. map (\<lambda>d. d ! i) cols) [0..<length c])
        else Inl ValueError)"

text \<open>Indexing an array with an array of positions, \<open>arr[idx]\<close>.\<close>

definition take_at :: "'a list \<Rightarrow> nat list \<Rightarrow> error + 'a list" where
  "take_at arr idx =
    (if list_all (\<lambda>n. n < length arr) idx then Inr (map (\<lambda>n. arr ! n) idx) else Inl IndexError)"

text \<open>
  \<open>np.choose(a, choices)\<close> in its default mode: entry \<open>i\<close> of the result is entry \<open>i\<close>
  of the choice numbered \<open>a[i]\<close>, and an index that does not number a choice raises.
\<close>

definition np_choose :: "int list \<Rightarrow> 'a list list \<Rightarrow> error + 'a list" where
  "np_choose a choices =
    (if list_all (\<lambda>k. 0 \<le> k \<and> k < int (length choices)) a
     then Inr (map (\<lambda>i. choices ! nat (a ! i) ! i) [0..<length a])
     else Inl ValueError)"

text \<open>The assignment \<open>r[idx] = vals\<close>, one position after the other.\<close>

definition put_at :: "'a list \<Rightarrow> nat list \<Rightarrow> 'a list \<Rightarrow> error + 'a list" where
  "put_at arr idx vals =
    (if list_all (\<lambda>n. n < length arr) idx
     then Inr (fold (\<lambda>(n, v) acc. acc[n := v]) (zip idx vals) arr)
     else Inl IndexError)"

text \<open>
  The eight neighbours of every node, clockwise from the right (source lines 29 to 36);
  \<open>a_n[-1]\<close> is the last of the four columns.
\<close>

definition neighbors_cw :: "grid \<Rightarrow> error + int list list" where
  "neighbors_cw g =
    (let neigh = fliplr (neighbors_at_node g);
         diag = fliplr (diagonals_at_node g);
         a_n = hsplit neigh;
         a_d = hsplit diag
     in hstack [a_n ! 3, a_d ! 0, a_n ! 0, a_d ! 1, a_n ! 1, a_d ! 2, a_n ! 2, a_d ! 3])"

definition convert_arc_flow_directions_to_landlab_node_ids ::
  "grid \<Rightarrow> int list \<Rightarrow> error + int list" where
  "convert_arc_flow_directions_to_landlab_node_ids g flow_dir_arc =
    (let r_arc_raw = map log2_astype_int flow_dir_arc
     in (case neighbors_cw g of
           Inl e \<Rightarrow> Inl e
         | Inr neighbors \<Rightarrow>
            (case take_at r_arc_raw (core_nodes g) of
               Inl e \<Rightarrow> Inl e
             | Inr idx \<Rightarrow>
                (case take_at neighbors (core_nodes g) of
                   Inl e \<Rightarrow> Inl e
                 | Inr rows \<Rightarrow>
                    (case np_choose idx (transpose rows) of
                       Inl e \<Rightarrow> Inl e
                     | Inr vals \<Rightarrow>
                        put_at (replicate (number_of_nodes g) 0) (core_nodes g) vals)))))"

section \<open>The worked scenario\<close>

text \<open>
  Core nodes 1 to 4 with elevations 10, 9, 5 and 1, receivers 1 \<open>\<rightarrow>\<close> 3, 2 \<open>\<rightarrow>\<close> 3,
  3 \<open>\<rightarrow>\<close> 4, 4 \<open>\<rightarrow>\<close> 4 and HSD identifiers A, B, C, D.  The arrays of the mesh are
  indexed from 0, so there is a fifth node 0, which is not a core node.
\<close>

definition scenario_grid :: grid where
  "scenario_grid =
    \<lparr>number_of_nodes = 5, core_nodes = [1, 2, 3, 4], topographic_elevation = [0, 10, 9, 5, 1],
     neighbors_at_node = [], diagonals_at_node = []\<rparr>"

definition scenario_r :: "nat \<rightharpoonup> nat" where
  "scenario_r = [1 \<mapsto> 3, 2 \<mapsto> 3, 3 \<mapsto> 4, 4 \<mapsto> 4]"

definition scenario_hsd :: "nat \<rightharpoonup> string" where
  "scenario_hsd = [1 \<mapsto> ''A'', 2 \<mapsto> ''B'', 3 \<mapsto> ''C'', 4 \<mapsto> ''D'']"

definition scenario_upstr :: "(nat \<times> string list) list" where
  "scenario_upstr =
    [(1, [''A'']), (3, [''A'', ''C'', ''B'']), (4, [''A'', ''C'', ''D'', ''B'']), (2, [''B''])]"

section \<open>Notions used to state the properties\<close>

text \<open>
  What every interpreter promises of \<open>keys()\<close>: the list has every key of the dictionary,
  each of them once.
\<close>

definition lists_keys :: "(('a \<times> nat) list \<Rightarrow> 'a list) \<Rightarrow> bool" where
  "lists_keys keys_of =
    (\<forall>cnt. distinct (map fst cnt) \<longrightarrow>
       distinct (keys_of cnt) \<and> set (keys_of cnt) = set (map fst cnt))"

text \<open>The sequence \<open>hsd_upstr[n]\<close>, empty when \<open>n\<close> is not a key.\<close>

definition upstream :: "(nat \<times> 'h list) list \<Rightarrow> nat \<Rightarrow> 'h list" where
  "upstream hs n = (case map_of hs n of None \<Rightarrow> [] | Some xs \<Rightarrow> xs)"

text \<open>
  \<open>drains core r k j\<close>: the receiver chain that starts at \<open>j\<close> reaches, in at most
  \<open>k\<close> steps, a node that is its own receiver or a node outside the core set.
\<close>

fun drains :: "nat list \<Rightarrow> (nat \<rightharpoonup> nat) \<Rightarrow> nat \<Rightarrow> nat \<Rightarrow> bool" where
  "drains core r 0 j = False"
| "drains core r (Suc k) j =
    (case r j of
       None \<Rightarrow> False
     | Some j' \<Rightarrow> j' = j \<or> j' \<notin> set core \<or> drains core r k j')"

text \<open>
  An input on which no lookup can fail: every core node is a position of the elevation
  array and of \<open>flow_accum\<close>, and has a receiver and an HSD identifier.
\<close>

definition well_formed :: "grid \<Rightarrow> (nat \<rightharpoonup> nat) \<Rightarrow> (nat \<rightharpoonup> 'h) \<Rightarrow> bool" where
  "well_formed g r hsd_ids =
    (\<forall>n \<in> set (core_nodes g).
        n < number_of_nodes g \<and> n < length (topographic_elevation g)
        \<and> r n \<noteq> None \<and> hsd_ids n \<noteq> None)"

text \<open>An acyclic receiver map: the chain of every core node ends.\<close>

definition acyclic_flow :: "grid \<Rightarrow> (nat \<rightharpoonup> nat) \<Rightarrow> bool" where
  "acyclic_flow g r = (\<forall>n \<in> set (core_nodes g). \<exists>k. drains (core_nodes g) r k n)"

text \<open>
  The invariant of the two loops of \<open>track_source\<close>: \<open>flow_accum[n]\<close> is the length
  of \<open>hsd_upstr[n]\<close>; the nodes with a positive \<open>flow_accum\<close> are exactly the counted
  ones; they are core nodes; and every key of \<open>hsd_upstr\<close> is counted.
\<close>

definition tracker_inv :: "nat list \<Rightarrow> 'h tracker \<Rightarrow> bool" where
  "tracker_inv core st =
    ((\<forall>n < length (flow_accum st). flow_accum st ! n = length (upstream (hsd_upstr st) n))
     \<and> (\<forall>n < length (flow_accum st). 0 < flow_accum st ! n \<longrightarrow> n \<in> set (alr_counted st))
     \<and> (\<forall>n \<in> set (alr_counted st).
           n \<in> set core \<and> n < length (flow_accum st) \<and> 0 < flow_accum st ! n)
     \<and> (\<forall>n. map_of (hsd_upstr st) n \<noteq> None \<longrightarrow> n \<in> set (alr_counted st)))"

text \<open>
  A second invariant of the outer loop: a counted node has a smaller \<open>flow_accum\<close> than
  its receiver, when the receiver is another core node (\<open>edge_ok\<close> for every counted
  node).  Inside a segment this is still \<open>owed\<close> for the node \<open>j\<close> visited last: it
  will hold of \<open>j\<close> once the counter \<open>a\<close>, raised by 1 if the receiver is new, has been
  added to the receiver's \<open>flow_accum\<close>.
\<close>

definition edge_ok :: "nat list \<Rightarrow> (nat \<rightharpoonup> nat) \<Rightarrow> 'h tracker \<Rightarrow> nat \<Rightarrow> bool" where
  "edge_ok core r st m =
    (\<forall>n. r m = Some n \<and> n \<noteq> m \<and> n \<in> set core \<longrightarrow>
       n < length (flow_accum st) \<and> flow_accum st ! m < flow_accum st ! n)"

definition downstream_more :: "nat list \<Rightarrow> (nat \<rightharpoonup> nat) \<Rightarrow> 'h tracker \<Rightarrow> bool" where
  "downstream_more core r st = (\<forall>m \<in> set (alr_counted st). edge_ok core r st m)"

definition owed :: "nat list \<Rightarrow> (nat \<rightharpoonup> nat) \<Rightarrow> 'h tracker \<Rightarrow> nat \<Rightarrow> nat \<Rightarrow> bool" where
  "owed core r st j a =
    (\<forall>n. r j = Some n \<and> n \<noteq> j \<and> n \<in> set core \<and> n < length (flow_accum st) \<longrightarrow>
       flow_accum st ! j + 1 \<le> flow_accum st ! n + a + (if flow_accum st ! n = 0 then 1 else 0))"

section \<open>Notions of the specification\<close>

text \<open>
  Following the specification's words, ``the set of distinct identifiers in
  first-encountered order'': the first element, then the first-encountered order of the
  rest without it.
\<close>

fun first_encountered :: "'a list \<Rightarrow> 'a list" where
  "first_encountered [] = []"
| "first_encountered (x # xs) = x # removeAll x (first_encountered xs)"

text \<open>
  Following the specification's words, the eight neighbours ``starting at the
  directly-east neighbor and proceeding clockwise'', in the pattern E, SE, S, SW, W, NW, N,
  NE, from the mesh's orthogonal neighbours (east, north, west, south) and diagonal
  neighbours (northeast, northwest, southwest, southeast).
\<close>

definition clockwise_from_east :: "int \<times> int \<times> int \<times> int \<Rightarrow> int \<times> int \<times> int \<times> int \<Rightarrow> int list" where
  "clockwise_from_east orth diag =
    (case orth of (east, north, west, south) \<Rightarrow>
       (case diag of (northeast, northwest, southwest, southeast) \<Rightarrow>
          [east, southeast, south, southwest, west, northwest, north, northeast]))"

section \<open>Further inputs\<close>

text \<open>
  A mutual cycle of two core nodes: node 0 drains to node 1 and node 1 drains to node 0.
\<close>

definition cycle_grid :: grid where
  "cycle_grid =
    \<lparr>number_of_nodes = 2, core_nodes = [0, 1], topographic_elevation = [2, 1],
     neighbors_at_node = [], diagonals_at_node = []\<rparr>"

definition cycle_r :: "nat \<rightharpoonup> nat" where
  "cycle_r = [0 \<mapsto> 1, 1 \<mapsto> 0]"

definition cycle_hsd :: "nat \<rightharpoonup> string" where
  "cycle_hsd = [0 \<mapsto> ''A'', 1 \<mapsto> ''B'']"

text \<open>
  A mesh whose flow leaves the core set: node 1 drains to node 2, node 2 drains to the
  boundary node 0, and node 3 is a sink that no other node drains to.
\<close>

definition outflow_grid :: grid where
  "outflow_grid =
    \<lparr>number_of_nodes = 4, core_nodes = [1, 2, 3], topographic_elevation = [0, 5, 3, 1],
     neighbors_at_node = [], diagonals_at_node = []\<rparr>"

definition outflow_r :: "nat \<rightharpoonup> nat" where
  "outflow_r = [1 \<mapsto> 2, 2 \<mapsto> 0, 3 \<mapsto> 3]"

definition outflow_hsd :: "nat \<rightharpoonup> string" where
  "outflow_hsd = [1 \<mapsto> ''A'', 2 \<mapsto> ''B'', 3 \<mapsto> ''C'']"

text \<open>
  A raster of three rows and three columns, numbered from the lower left corner:
  \<^verbatim>\<open>
    6 7 8
    3 4 5
    0 1 2
  \<close>
  Node 4 is the only core node; a missing neighbour is \<open>-1\<close>.
\<close>

definition raster_grid :: grid where
  "raster_grid =
    \<lparr>number_of_nodes = 9, core_nodes = [4],
     topographic_elevation = [0, 0, 0, 0, 0, 0, 0, 0, 0],
     neighbors_at_node =
       [(1, 3, -1, -1), (2, 4, 0, -1), (-1, 5, 1, -1),
        (4, 6, -1, 0), (5, 7, 3, 1), (-1, 8, 4, 2),
        (7, -1, -1, 3), (8, -1, 6, 4), (-1, -1, 7, 5)],
     diagonals_at_node =
       [(4, -1, -1, -1), (5, 3, -1, -1), (-1, 4, -1, -1),
        (7, -1, -1, 1), (8, 6, 0, 2), (-1, 7, 1, -1),
        (-1, -1, -1, 4), (-1, -1, 3, 5), (-1, -1, 4, -1)]\<rparr>"

section \<open>The store\<close>

text \<open>
  To follow which arrays, lists and dictionaries a call writes to, the objects of the
  program are placed in a store.  An address is a position of the store; creating an
  object appends it to the store, and an assignment into an object replaces the object at
  its address.  Two names for the same object are two copies of one address.
\<close>

datatype 'h obj =
    Elevations "real list"
  | Nodes "nat list"
  | Receivers "nat \<rightharpoonup> nat"
  | Sources "nat \<rightharpoonup> 'h"
  | Buffer "'h list"
  | Dict "(nat \<times> nat) list"
  | Codes "int list"
  | Rows "(int \<times> int \<times> int \<times> int) list"
  | Stacked "int list list"

type_synonym 'h heap = "'h obj list"

definition alloc :: "'h heap \<Rightarrow> 'h obj \<Rightarrow> nat \<times> 'h heap" where
  "alloc h ob = (length h, h @ [ob])"

definition obj_at :: "'h heap \<Rightarrow> nat \<Rightarrow> 'h obj option" where
  "obj_at h p = (if p < length h then Some (h ! p) else None)"

definition elevations_at :: "'h heap \<Rightarrow> nat \<Rightarrow> real list" where
  "elevations_at h p = (case obj_at h p of Some (Elevations z) \<Rightarrow> z | _ \<Rightarrow> [])"

definition nodes_at :: "'h heap \<Rightarrow> nat \<Rightarrow> nat list" where
  "nodes_at h p = (case obj_at h p of Some (Nodes xs) \<Rightarrow> xs | _ \<Rightarrow> [])"

definition receivers_at :: "'h heap \<Rightarrow> nat \<Rightarrow> nat \<rightharpoonup> nat" where
  "receivers_at h p = (case obj_at h p of Some (Receivers r) \<Rightarrow> r | _ \<Rightarrow> Map.empty)"

definition sources_at :: "'h heap \<Rightarrow> nat \<Rightarrow> nat \<rightharpoonup> 'h" where
  "sources_at h p = (case obj_at h p of Some (Sources s) \<Rightarrow> s | _ \<Rightarrow> Map.empty)"

definition buffer_at :: "'h heap \<Rightarrow> nat \<Rightarrow> 'h list" where
  "buffer_at h p = (case obj_at h p of Some (Buffer xs) \<Rightarrow> xs | _ \<Rightarrow> [])"

definition dict_at :: "'h heap \<Rightarrow> nat \<Rightarrow> (nat \<times> nat) list" where
  "dict_at h p = (case obj_at h p of Some (Dict d) \<Rightarrow> d | _ \<Rightarrow> [])"

definition codes_at :: "'h heap \<Rightarrow> nat \<Rightarrow> int list" where
  "codes_at h p = (case obj_at h p of Some (Codes cs) \<Rightarrow> cs | _ \<Rightarrow> [])"

definition rows_at :: "'h heap \<Rightarrow> nat \<Rightarrow> (int \<times> int \<times> int \<times> int) list" where
  "rows_at h p = (case obj_at h p of Some (Rows rs) \<Rightarrow> rs | _ \<Rightarrow> [])"

definition stacked_at :: "'h heap \<Rightarrow> nat \<Rightarrow> int list list" where
  "stacked_at h p = (case obj_at h p of Some (Stacked rs) \<Rightarrow> rs | _ \<Rightarrow> [])"

text \<open>
  The addresses that \<open>track_source\<close> holds: its arguments \<open>grid.core_nodes\<close>, \<open>r\<close> and
  \<open>hsd_ids\<close>, and the three structures it creates.  The dictionary \<open>hsd_upstr\<close> maps a
  node to the address of a list.
\<close>

record refs =
  core_ref :: nat
  r_ref :: nat
  hsd_ref :: nat
  alr_ref :: nat
  fa_ref :: nat
  hs_ref :: nat

subsection \<open>\<open>track_source\<close> on the store\<close>

text \<open>
  Source lines 93 to 96: a node whose \<open>flow_accum\<close> is still 0 is appended to
  \<open>alr_counted\<close>, and its identifier to the list \<open>stream_buffer\<close> at \<open>buf_ref\<close>.
\<close>

definition count_node_h ::
  "refs \<Rightarrow> nat \<Rightarrow> nat \<Rightarrow> nat \<Rightarrow> 'h heap \<Rightarrow> (error + nat) \<times> 'h heap" where
  "count_node_h rf buf_ref j a h =
    (if nodes_at h (fa_ref rf) ! j = 0
     then (let h1 = h[alr_ref rf := Nodes (nodes_at h (alr_ref rf) @ [j])]
           in (case sources_at h1 (hsd_ref rf) j of
                 None \<Rightarrow> (Inl LookupError, h1)
               | Some x \<Rightarrow> (Inr (a + 1), h1[buf_ref := Buffer (buffer_at h1 buf_ref @ [x])])))
     else (Inr a, h))"

text \<open>
  Source lines 101 to 107.  \<open>copy.copy(stream_buffer)\<close> creates a list.  For a key of
  \<open>hsd_upstr\<close>, \<open>+=\<close> extends the list that the dictionary holds, at its address; for
  another node, \<open>update\<close> is given a dictionary created for the call, and the address of
  the copy is entered in \<open>hsd_upstr\<close>.
\<close>

definition store_buffer_h :: "refs \<Rightarrow> nat \<Rightarrow> nat \<Rightarrow> 'h heap \<Rightarrow> 'h heap" where
  "store_buffer_h rf buf_ref j h =
    (case map_of (dict_at h (hs_ref rf)) j of
       Some e \<Rightarrow>
         let (c, h1) = alloc h (Buffer (buffer_at h buf_ref))
         in h1[e := Buffer (buffer_at h1 e @ buffer_at h1 c)]
     | None \<Rightarrow>
         let (c, h1) = alloc h (Buffer (buffer_at h buf_ref));
             (t, h2) = alloc h1 (Dict [(j, c)])
         in h2[hs_ref rf := Dict (AList.update j c (dict_at h2 (hs_ref rf)))])"

text \<open>Source lines 93 to 107, as \<open>visit_node\<close>.\<close>

definition visit_node_h ::
  "refs \<Rightarrow> nat \<Rightarrow> nat \<Rightarrow> nat \<Rightarrow> 'h heap \<Rightarrow> (error + nat) \<times> 'h heap" where
  "visit_node_h rf buf_ref j a h =
    (if \<not> j < length (nodes_at h (fa_ref rf)) then (Inl IndexError, h)
     else
       (case count_node_h rf buf_ref j a h of
          (Inl e, h1) \<Rightarrow> (Inl e, h1)
        | (Inr a', h1) \<Rightarrow>
           let fa = nodes_at h1 (fa_ref rf);
               h2 = h1[fa_ref rf := Nodes (fa[j := fa ! j + a'])]
           in (Inr a', store_buffer_h rf buf_ref j h2)))"

datatype outcome_h = BreakH | ContinueH nat nat | RaiseH error

text \<open>The body of the \<open>while True\<close> loop, as \<open>segment_step\<close>.\<close>

definition segment_step_h ::
  "refs \<Rightarrow> nat \<Rightarrow> nat \<Rightarrow> bool \<Rightarrow> nat \<Rightarrow> 'h heap \<Rightarrow> outcome_h \<times> 'h heap" where
  "segment_step_h rf buf_ref j switch_i a h =
    (case (if switch_i then Some j else receivers_at h (r_ref rf) j) of
       None \<Rightarrow> (RaiseH LookupError, h)
     | Some j' \<Rightarrow>
        if \<not> switch_i \<and> j' \<notin> set (nodes_at h (core_ref rf)) then (BreakH, h)
        else
          (case visit_node_h rf buf_ref j' a h of
             (Inl e, h') \<Rightarrow> (RaiseH e, h')
           | (Inr a', h') \<Rightarrow>
              (case receivers_at h' (r_ref rf) j' of
                 None \<Rightarrow> (RaiseH LookupError, h')
               | Some rj \<Rightarrow> if rj = j' then (BreakH, h') else (ContinueH j' a', h'))))"

partial_function (option) segment_loop_h ::
  "refs \<Rightarrow> nat \<Rightarrow> nat \<Rightarrow> bool \<Rightarrow> nat \<Rightarrow> 'h heap \<Rightarrow> (error option \<times> 'h heap) option" where
  "segment_loop_h rf buf_ref j switch_i a h =
    (case segment_step_h rf buf_ref j switch_i a h of
       (RaiseH e, h') \<Rightarrow> Some (Some e, h')
     | (BreakH, h') \<Rightarrow> Some (None, h')
     | (ContinueH j' a', h') \<Rightarrow> segment_loop_h rf buf_ref j' False a' h')"

text \<open>
  Source lines 68 to 72: the list \<open>[hsd_ids[i]]\<close> and the dictionary given to \<open>update\<close>
  are created, then \<open>flow_accum\<close> and \<open>alr_counted\<close> are written.
\<close>

definition visit_sink_h :: "refs \<Rightarrow> nat \<Rightarrow> 'h heap \<Rightarrow> error option \<times> 'h heap" where
  "visit_sink_h rf i h =
    (case sources_at h (hsd_ref rf) i of
       None \<Rightarrow> (Some LookupError, h)
     | Some x \<Rightarrow>
        let (c, h1) = alloc h (Buffer [x]);
            (t, h2) = alloc h1 (Dict [(i, c)]);
            h3 = h2[hs_ref rf := Dict (AList.update i c (dict_at h2 (hs_ref rf)))];
            fa = nodes_at h3 (fa_ref rf)
        in if \<not> i < length fa then (Some IndexError, h3)
           else
             let h4 = h3[fa_ref rf := Nodes (fa[i := fa ! i + 1])]
             in (None, h4[alr_ref rf := Nodes (nodes_at h4 (alr_ref rf) @ [i])]))"

text \<open>
  The \<open>for i in sor_z\<close> loop.  Every segment starts with a list \<open>stream_buffer = []\<close> of
  its own.
\<close>

fun track_loop_h :: "refs \<Rightarrow> nat list \<Rightarrow> 'h heap \<Rightarrow> (error option \<times> 'h heap) option" where
  "track_loop_h rf [] h = Some (None, h)"
| "track_loop_h rf (i # sor_z) h =
    (if i \<in> set (nodes_at h (alr_ref rf)) then track_loop_h rf sor_z h
     else
       (case receivers_at h (r_ref rf) i of
          None \<Rightarrow> Some (Some LookupError, h)
        | Some ri \<Rightarrow>
           if ri = i then
             (case visit_sink_h rf i h of
                (Some e, h') \<Rightarrow> Some (Some e, h')
              | (None, h') \<Rightarrow> track_loop_h rf sor_z h')
           else
             (let (buf_ref, h1) = alloc h (Buffer [])
              in (case segment_loop_h rf buf_ref i True 0 h1 of
                    None \<Rightarrow> None
                  | Some (Some e, h') \<Rightarrow> Some (Some e, h')
                  | Some (None, h') \<Rightarrow> track_loop_h rf sor_z h'))))"

text \<open>The grid object: the number of its nodes and the addresses of its arrays.\<close>

record grid_h =
  number_of_nodes_h :: nat
  core_nodes_ref :: nat
  elevation_ref :: nat
  neighbors_ref :: nat
  diagonals_ref :: nat

text \<open>
  Source lines 51 to 60.  Indexing with an array (\<open>z[core_nodes]\<close>, \<open>core_nodes[...]\<close>),
  \<open>np.argsort\<close> and \<open>np.zeros\<close> create arrays; \<open>[::-1]\<close> is a view of the array it
  reverses.  The result is the addresses held by the loop, the address of \<open>sor_z\<close> and
  the store.
\<close>

definition allocate_state_h :: "grid_h \<Rightarrow> nat \<Rightarrow> nat \<Rightarrow> 'h heap \<Rightarrow> refs \<times> nat \<times> 'h heap" where
  "allocate_state_h gr r_at hsd_at h =
    (let z = elevations_at h (elevation_ref gr);
         core = nodes_at h (core_nodes_ref gr);
         (ce_ref, h1) = alloc h (Elevations (map (\<lambda>n. z ! n) core));
         (as_ref, h2) = alloc h1 (Nodes (argsort (elevations_at h1 ce_ref)));
         (sz_ref, h3) = alloc h2 (Nodes (map (\<lambda>k. core ! k) (rev (nodes_at h2 as_ref))));
         (alr, h4) = alloc h3 (Nodes []);
         (fa, h5) = alloc h4 (Nodes (replicate (number_of_nodes_h gr) 0));
         (hs, h6) = alloc h5 (Dict [])
     in (\<lparr>core_ref = core_nodes_ref gr, r_ref = r_at, hsd_ref = hsd_at,
           alr_ref = alr, fa_ref = fa, hs_ref = hs\<rparr>, sz_ref, h6))"

text \<open>
  \<open>track_source\<close> on the store \<open>h\<close>, called with the grid \<open>gr\<close> and the addresses of
  \<open>r\<close> and \<open>hsd_ids\<close>.  It returns the addresses of \<open>hsd_upstr\<close> and \<open>flow_accum\<close>, or
  raises, and leaves the store \<open>h'\<close>.
\<close>

definition track_source_h ::
  "grid_h \<Rightarrow> nat \<Rightarrow> nat \<Rightarrow> 'h heap \<Rightarrow> ((error + nat \<times> nat) \<times> 'h heap) option" where
  "track_source_h gr r_at hsd_at h =
    (if \<not> list_all (\<lambda>n. n < length (elevations_at h (elevation_ref gr)))
              (nodes_at h (core_nodes_ref gr))
     then Some (Inl IndexError, h)
     else
       (case allocate_state_h gr r_at hsd_at h of
          (rf, sz_ref, h1) \<Rightarrow>
            (case track_loop_h rf (nodes_at h1 sz_ref) h1 of
               None \<Rightarrow> None
             | Some (Some e, h') \<Rightarrow> Some (Inl e, h')
             | Some (None, h') \<Rightarrow> Some (Inr (hs_ref rf, fa_ref rf), h'))))"

subsection \<open>The decoder on the store\<close>

text \<open>
  \<open>convert_arc_flow_directions_to_landlab_node_ids\<close> on the store \<open>h\<close>, called with
  the grid \<open>gr\<close> and the address of \<open>flow_dir_arc\<close>.  \<open>np.log2\<close> with \<open>astype\<close>,
  \<open>np.hstack\<close>, \<open>np.zeros\<close>, indexing with an array and \<open>np.choose\<close> create arrays;
  \<open>np.fliplr\<close>, \<open>np.hsplit\<close> and \<open>np.transpose\<close> are views of the arrays they are
  given.  The only assignment is \<open>r[grid.core_nodes] = ...\<close>.  It returns the address
  of \<open>r\<close>, or raises, and leaves a store.
\<close>

definition convert_arc_flow_directions_to_landlab_node_ids_h ::
  "grid_h \<Rightarrow> nat \<Rightarrow> 'h heap \<Rightarrow> (error + nat) \<times> 'h heap" where
  "convert_arc_flow_directions_to_landlab_node_ids_h gr fd_ref h =
    (let (raw_ref, h1) = alloc h (Codes (map log2_astype_int (codes_at h fd_ref)));
         neigh = fliplr (rows_at h1 (neighbors_ref gr));
         diag = fliplr (rows_at h1 (diagonals_ref gr));
         a_n = hsplit neigh;
         a_d = hsplit diag
     in (case hstack [a_n ! 3, a_d ! 0, a_n ! 0, a_d ! 1, a_n ! 1, a_d ! 2, a_n ! 2, a_d ! 3] of
           Inl e \<Rightarrow> (Inl e, h1)
         | Inr neighbors \<Rightarrow>
            let (nb_ref, h2) = alloc h1 (Stacked neighbors);
                (out_ref, h3) = alloc h2 (Codes (replicate (number_of_nodes_h gr) 0))
            in (case take_at (codes_at h3 raw_ref) (nodes_at h3 (core_nodes_ref gr)) of
                  Inl e \<Rightarrow> (Inl e, h3)
                | Inr idx \<Rightarrow>
                   let (idx_ref, h4) = alloc h3 (Codes idx)
                   in (case take_at (stacked_at h4 nb_ref) (nodes_at h4 (core_nodes_ref gr)) of
                         Inl e \<Rightarrow> (Inl e, h4)
                       | Inr rows \<Rightarrow>
                          let (rows_ref, h5) = alloc h4 (Stacked rows)
                          in (case np_choose (codes_at h5 idx_ref)
                                     (transpose (stacked_at h5 rows_ref)) of
                                Inl e \<Rightarrow> (Inl e, h5)
                              | Inr vals \<Rightarrow>
                                 let (vals_ref, h6) = alloc h5 (Codes vals)
                                 in (case put_at (codes_at h6 out_ref)
                                            (nodes_at h6 (core_nodes_ref gr))
                                            (codes_at h6 vals_ref) of
                                       Inl e \<Rightarrow> (Inl e, h6)
                                     | Inr r' \<Rightarrow> (Inr out_ref, h6[out_ref := Codes r'])))))))"

subsection \<open>Stores of the inputs\<close>

text \<open>
  The store before a call that is given the grid \<open>g\<close>, the receivers \<open>r\<close>, the
  identifiers \<open>hsd_ids\<close> and the codes \<open>flow_dir_arc\<close> as seven objects: the receivers
  are at address 4, the identifiers at address 5 and the codes at address 6.
\<close>

definition store_inputs :: "grid \<Rightarrow> (nat \<rightharpoonup> nat) \<Rightarrow> (nat \<rightharpoonup> 'h) \<Rightarrow> int list \<Rightarrow> 'h heap" where
  "store_inputs g r hsd_ids flow_dir_arc =
    [Elevations (topographic_elevation g), Nodes (core_nodes g),
     Rows (neighbors_at_node g), Rows (diagonals_at_node g),
     Receivers r, Sources hsd_ids, Codes flow_dir_arc]"

definition grid_refs :: "grid \<Rightarrow> grid_h" where
  "grid_refs g =
    \<lparr>number_of_nodes_h = number_of_nodes g, core_nodes_ref = 1, elevation_ref = 0,
     neighbors_ref = 2, diagonals_ref = 3\<rparr>"

text \<open>The dictionary \<open>hsd_upstr\<close> read from the store: every key with its list.\<close>

definition upstr_at :: "'h heap \<Rightarrow> nat \<Rightarrow> (nat \<times> 'h list) list" where
  "upstr_at h p = map (\<lambda>(k, c). (k, buffer_at h c)) (dict_at h p)"

definition scenario_heap :: "string heap" where
  "scenario_heap = store_inputs scenario_grid scenario_r scenario_hsd []"

definition raster_heap :: "string heap" where
  "raster_heap = store_inputs raster_grid Map.empty Map.empty [0, 0, 0, 0, 32, 0, 0, 0, 0]"

subsection \<open>Notions used to state the frame\<close>

text \<open>
  \<open>keeps n h h'\<close>: the store has not shrunk and its first \<open>n\<close> objects are the same
  in \<open>h'\<close> as in \<open>h\<close>.
\<close>

definition keeps :: "nat \<Rightarrow> 'h heap \<Rightarrow> 'h heap \<Rightarrow> bool" where
  "keeps n h h' = (length h \<le> length h' \<and> take n h' = take n h)"

text \<open>
  \<open>fresh_refs n rf h\<close>: the structures of the loop and the lists of \<open>hsd_upstr\<close> are
  not among the first \<open>n\<close> objects.
\<close>

definition fresh_refs :: "nat \<Rightarrow> refs \<Rightarrow> 'h heap \<Rightarrow> bool" where
  "fresh_refs n rf h =
    (n \<le> length h \<and> n \<le> alr_ref rf \<and> n \<le> fa_ref rf \<and> n \<le> hs_ref rf
     \<and> hs_ref rf < length h \<and> (\<forall>x \<in> set (dict_at h (hs_ref rf)). n \<le> snd x))"

definition safe :: "nat \<Rightarrow> refs \<Rightarrow> 'h heap \<Rightarrow> 'h heap \<Rightarrow> bool" where
  "safe n rf h h' = (fresh_refs n rf h \<longrightarrow> fresh_refs n rf h' \<and> keeps n h h')"

section \<open>One pass of the inner loop\<close>

lemma visit_node_Inr:
  assumes "visit_node h j a buf st = Inr (a', buf', st')"
  shows "j < length (flow_accum st)"
    and "flow_accum st' = (flow_accum st)[j := flow_accum st ! j + a']"
    and "map_of (hsd_upstr st') = (map_of (hsd_upstr st))(j \<mapsto> upstream (hsd_upstr st) j @ buf')"
    and "flow_accum st ! j = 0 \<Longrightarrow>
           a' = a + 1 \<and> (\<exists>x. h j = Some x \<and> buf' = buf @ [x]) \<and> alr_counted st' = alr_counted st @ [j]"
    and "flow_accum st ! j \<noteq> 0 \<Longrightarrow> a' = a \<and> buf' = buf \<and> alr_counted st' = alr_counted st"
  using assms
  by (auto simp: visit_node_def upstream_def update_conv' split: if_splits option.splits sum.splits)

lemma segment_step_Break:
  assumes "segment_step core r h j sw a buf st = Break st'"
  shows "(\<not> sw \<and> st' = st \<and> (\<exists>j'. r j = Some j' \<and> j' \<notin> set core))
       \<or> (\<exists>j' a' buf'. (if sw then j' = j else r j = Some j' \<and> j' \<in> set core)
              \<and> visit_node h j' a buf st = Inr (a', buf', st') \<and> r j' = Some j')"
  using assms
  by (auto simp: segment_step_def split: if_splits option.splits sum.splits)

lemma segment_step_Continue:
  assumes "segment_step core r h j sw a buf st = Continue j' a' buf' st'"
  shows "(if sw then j' = j else r j = Some j' \<and> j' \<in> set core)
       \<and> visit_node h j' a buf st = Inr (a', buf', st') \<and> (\<exists>rj. r j' = Some rj \<and> rj \<noteq> j')"
  using assms
  by (auto simp: segment_step_def split: if_splits option.splits sum.splits)

section \<open>The invariant of the tracker\<close>

lemma tracker_invD:
  assumes "tracker_inv core st"
  shows "\<And>n. n < length (flow_accum st) \<Longrightarrow> flow_accum st ! n = length (upstream (hsd_upstr st) n)"
    and "\<And>n. n < length (flow_accum st) \<Longrightarrow> 0 < flow_accum st ! n \<Longrightarrow> n \<in> set (alr_counted st)"
    and "\<And>n. n \<in> set (alr_counted st) \<Longrightarrow> n \<in> set core"
    and "\<And>n. n \<in> set (alr_counted st) \<Longrightarrow> n < length (flow_accum st)"
    and "\<And>n. n \<in> set (alr_counted st) \<Longrightarrow> 0 < flow_accum st ! n"
    and "\<And>n. map_of (hsd_upstr st) n \<noteq> None \<Longrightarrow> n \<in> set (alr_counted st)"
  using assms unfolding tracker_inv_def by blast+

lemma visit_node_inv:
  assumes v: "visit_node h j a buf st = Inr (a', buf', st')"
    and inv: "tracker_inv core st" and a: "a = length buf" and j: "j \<in> set core"
  shows "tracker_inv core st'" and "a' = length buf'"
    and "length (flow_accum st') = length (flow_accum st)"
    and "set (alr_counted st) \<subseteq> set (alr_counted st')"
    and "j \<in> set (alr_counted st')"
proof -
  note f = visit_node_Inr[OF v]
  note i = tracker_invD[OF inv]
  show a': "a' = length buf'" using f(4,5) a by (cases "flow_accum st ! j = 0") auto
  show len: "length (flow_accum st') = length (flow_accum st)" using f(2) by simp
  have cnt: "set (alr_counted st') = insert j (set (alr_counted st))"
  proof (cases "flow_accum st ! j = 0")
    case True
    then show ?thesis using f(4) by auto
  next
    case False
    then have "j \<in> set (alr_counted st)" using i(2)[OF f(1)] by simp
    then show ?thesis using f(5)[OF False] by auto
  qed
  then show "set (alr_counted st) \<subseteq> set (alr_counted st')" and "j \<in> set (alr_counted st')"
    by auto
  have pos: "0 < flow_accum st' ! j"
    using f(1,2,4,5) by (cases "flow_accum st ! j = 0") auto
  have up: "upstream (hsd_upstr st') n = (if n = j then upstream (hsd_upstr st) j @ buf' else upstream (hsd_upstr st) n)" for n
    using f(3) by (simp add: upstream_def)
  have fa: "flow_accum st' ! n = (if n = j then flow_accum st ! j + a' else flow_accum st ! n)"
    if "n < length (flow_accum st)" for n
    using f(2) that by simp
  show "tracker_inv core st'"
    unfolding tracker_inv_def
  proof (intro conjI allI impI ballI)
    fix n assume "n < length (flow_accum st')"
    then have n: "n < length (flow_accum st)" using len by simp
    show "flow_accum st' ! n = length (upstream (hsd_upstr st') n)"
      using i(1)[OF n] i(1)[OF f(1)] a' fa[OF n] up[of n] by simp
  next
    fix n assume "n < length (flow_accum st')" and p: "0 < flow_accum st' ! n"
    then have n: "n < length (flow_accum st)" using len by simp
    show "n \<in> set (alr_counted st')"
    proof (cases "n = j")
      case True then show ?thesis using cnt by simp
    next
      case False
      then have "0 < flow_accum st ! n" using fa[OF n] p by simp
      then show ?thesis using i(2)[OF n] cnt by simp
    qed
  next
    fix n assume "n \<in> set (alr_counted st')"
    then have n: "n = j \<or> n \<in> set (alr_counted st)" using cnt by simp
    show "n \<in> set core" using n i(3) j by blast
    show "n < length (flow_accum st')" using n i(4) f(1) len by auto
    show "0 < flow_accum st' ! n"
    proof (cases "n = j")
      case True then show ?thesis using pos by simp
    next
      case False
      then have "n \<in> set (alr_counted st)" using n by simp
      then show ?thesis using i(4)[of n] i(5)[of n] fa[of n] False by simp
    qed
  next
    fix n assume m: "map_of (hsd_upstr st') n \<noteq> None"
    show "n \<in> set (alr_counted st')"
    proof (cases "n = j")
      case True then show ?thesis using cnt by simp
    next
      case False
      then have "map_of (hsd_upstr st) n \<noteq> None" using m f(3) by simp
      then show ?thesis using i(6) cnt by simp
    qed
  qed
qed

lemma segment_loop_induct [consumes 1, case_names Raise Break Continue]:
  assumes run: "segment_loop core r hsd_ids j sw a buf st = Some y"
    and raise: "\<And>j sw a buf st e. segment_step core r hsd_ids j sw a buf st = Raise e \<Longrightarrow> P j sw a buf st (Inl e)"
    and break: "\<And>j sw a buf st st'. segment_step core r hsd_ids j sw a buf st = Break st' \<Longrightarrow> P j sw a buf st (Inr st')"
    and continue: "\<And>j sw a buf st j' a' buf' st' y.
        segment_step core r hsd_ids j sw a buf st = Continue j' a' buf' st' \<Longrightarrow>
        P j' False a' buf' st' y \<Longrightarrow> P j sw a buf st y"
  shows "P j sw a buf st y"
proof -
  have "core = core \<longrightarrow> r = r \<longrightarrow> hsd_ids = hsd_ids \<longrightarrow> P j sw a buf st y"
  proof (rule segment_loop.raw_induct
      [where P = "\<lambda>core' r' h' j sw a buf st y.
          core' = core \<longrightarrow> r' = r \<longrightarrow> h' = hsd_ids \<longrightarrow> P j sw a buf st y", OF _ run])
    fix loop :: "nat list \<Rightarrow> (nat \<rightharpoonup> nat) \<Rightarrow> (nat \<rightharpoonup> 'a) \<Rightarrow> nat \<Rightarrow> bool \<Rightarrow> nat \<Rightarrow> 'a list \<Rightarrow> 'a tracker
        \<Rightarrow> (error + 'a tracker) option"
    fix core' r' h' j sw a buf st y
    assume ih: "\<And>core' r' h' j sw a buf st y. loop core' r' h' j sw a buf st = Some y \<Longrightarrow>
        core' = core \<longrightarrow> r' = r \<longrightarrow> h' = hsd_ids \<longrightarrow> P j sw a buf st y"
    assume body: "(case segment_step core' r' h' j sw a buf st of
        Break st' \<Rightarrow> Some (Inr st')
      | Continue j' a' buf' st' \<Rightarrow> loop core' r' h' j' False a' buf' st'
      | Raise e \<Rightarrow> Some (Inl e)) = Some y"
    show "core' = core \<longrightarrow> r' = r \<longrightarrow> h' = hsd_ids \<longrightarrow> P j sw a buf st y"
    proof (intro impI)
      assume eqs: "core' = core" "r' = r" "h' = hsd_ids"
      show "P j sw a buf st y"
      proof (cases "segment_step core r hsd_ids j sw a buf st")
        case (Break st')
        with body eqs have "y = Inr st'" by simp
        with Break break show ?thesis by simp
      next
        case (Continue j' a' buf' st')
        with body eqs have "loop core r hsd_ids j' False a' buf' st' = Some y" by simp
        from ih[OF this] have "P j' False a' buf' st' y" by simp
        with Continue continue show ?thesis by blast
      next
        case (Raise e)
        with body eqs have "y = Inl e" by simp
        with Raise raise show ?thesis by simp
      qed
    qed
  qed
  then show ?thesis by simp
qed



lemma segment_loop_inv:
  assumes run: "segment_loop core r h j sw a buf st = Some (Inr st')"
    and "tracker_inv core st" and "a = length buf" and "sw \<longrightarrow> j \<in> set core"
  shows "tracker_inv core st' \<and> length (flow_accum st') = length (flow_accum st)
       \<and> set (alr_counted st) \<subseteq> set (alr_counted st') \<and> (sw \<longrightarrow> j \<in> set (alr_counted st'))"
proof -
  have "\<forall>st'. y = Inr st' \<longrightarrow> tracker_inv core st \<longrightarrow> a = length buf \<longrightarrow> (sw \<longrightarrow> j \<in> set core) \<longrightarrow>
      tracker_inv core st' \<and> length (flow_accum st') = length (flow_accum st)
       \<and> set (alr_counted st) \<subseteq> set (alr_counted st') \<and> (sw \<longrightarrow> j \<in> set (alr_counted st'))"
    if "segment_loop core r h j sw a buf st = Some y" for y
    using that
  proof (induction rule: segment_loop_induct)
    case (Raise j sw a buf st e)
    show ?case by simp
  next
    case (Break j sw a buf st st1)
    show ?case
    proof (intro allI impI)
      fix st' assume eq: "Inr st1 = (Inr st' :: error + 'a tracker)"
        and inv: "tracker_inv core st" and a: "a = length buf" and c: "sw \<longrightarrow> j \<in> set core"
      from segment_step_Break[OF Break] show "tracker_inv core st' \<and> length (flow_accum st') = length (flow_accum st)
       \<and> set (alr_counted st) \<subseteq> set (alr_counted st') \<and> (sw \<longrightarrow> j \<in> set (alr_counted st'))"
      proof (elim disjE conjE exE)
        assume "\<not> sw" "st1 = st"
        then show ?thesis using eq inv by simp
      next
        fix j' a' buf'
        assume j': "if sw then j' = j else r j = Some j' \<and> j' \<in> set core"
          and v: "visit_node h j' a buf st = Inr (a', buf', st1)"
        have jc: "j' \<in> set core" using j' c by (auto split: if_splits)
        note vi = visit_node_inv[OF v inv a jc]
        show ?thesis using vi eq j' by (auto split: if_splits)
      qed
    qed
  next
    case (Continue j sw a buf st j' a' buf' st1 y)
    show ?case
    proof (intro allI impI)
      fix st' assume eq: "y = Inr st'"
        and inv: "tracker_inv core st" and a: "a = length buf" and c: "sw \<longrightarrow> j \<in> set core"
      note sc = segment_step_Continue[OF Continue(1)]
      have jc: "j' \<in> set core" using sc c by (auto split: if_splits)
      from sc have v: "visit_node h j' a buf st = Inr (a', buf', st1)" by simp
      note vi = visit_node_inv[OF v inv a jc]
      from Continue(2) eq vi(1,2) have ih: "tracker_inv core st' \<and> length (flow_accum st') = length (flow_accum st1)
         \<and> set (alr_counted st1) \<subseteq> set (alr_counted st')" by simp
      have "sw \<longrightarrow> j' = j" using sc by (auto split: if_splits)
      then show "tracker_inv core st' \<and> length (flow_accum st') = length (flow_accum st)
       \<and> set (alr_counted st) \<subseteq> set (alr_counted st') \<and> (sw \<longrightarrow> j \<in> set (alr_counted st'))"
        using ih vi(3,4,5) by auto
    qed
  qed
  with run assms(2-) show ?thesis by blast
qed

lemma visit_sink_inv:
  assumes v: "visit_sink h i st = Inr st'"
    and inv: "tracker_inv core st" and i: "i \<in> set core" and nc: "i \<notin> set (alr_counted st)"
  shows "tracker_inv core st'" and "length (flow_accum st') = length (flow_accum st)"
    and "set (alr_counted st') = insert i (set (alr_counted st))"
proof -
  note d = tracker_invD[OF inv]
  from v obtain x where x: "h i = Some x" and il: "i < length (flow_accum st)"
    and st': "st' = \<lparr>alr_counted = alr_counted st @ [i],
                  flow_accum = (flow_accum st)[i := flow_accum st ! i + 1],
                  hsd_upstr = AList.update i [x] (hsd_upstr st)\<rparr>"
    by (auto simp: visit_sink_def split: option.splits if_splits)
  have z: "flow_accum st ! i = 0" using d(2)[OF il] nc by auto
  show len: "length (flow_accum st') = length (flow_accum st)" using st' by simp
  show cnt: "set (alr_counted st') = insert i (set (alr_counted st))" using st' by simp
  have up: "upstream (hsd_upstr st') n = (if n = i then [x] else upstream (hsd_upstr st) n)" for n
    using st' by (simp add: upstream_def update_conv')
  have fa: "flow_accum st' ! n = (if n = i then 1 else flow_accum st ! n)"
    if "n < length (flow_accum st)" for n
    using st' that z by simp
  show "tracker_inv core st'"
    unfolding tracker_inv_def
  proof (intro conjI allI impI ballI)
    fix n assume "n < length (flow_accum st')"
    then have n: "n < length (flow_accum st)" using len by simp
    show "flow_accum st' ! n = length (upstream (hsd_upstr st') n)"
      using d(1)[OF n] fa[OF n] up[of n] by simp
  next
    fix n assume "n < length (flow_accum st')" and p: "0 < flow_accum st' ! n"
    then have n: "n < length (flow_accum st)" using len by simp
    show "n \<in> set (alr_counted st')"
      using d(2)[OF n] fa[OF n] p cnt by (cases "n = i") auto
  next
    fix n assume "n \<in> set (alr_counted st')"
    then have n: "n = i \<or> n \<in> set (alr_counted st)" using cnt by simp
    show "n \<in> set core" using n d(3) i by blast
    show "n < length (flow_accum st')" using n d(4) il len by auto
    show "0 < flow_accum st' ! n"
      using n d(4)[of n] d(5)[of n] fa[of n] il by (cases "n = i") auto
  next
    fix n assume m: "map_of (hsd_upstr st') n \<noteq> None"
    show "n \<in> set (alr_counted st')"
    proof (cases "n = i")
      case True then show ?thesis using cnt by simp
    next
      case False
      then have "map_of (hsd_upstr st) n \<noteq> None" using m st' by (simp add: update_conv')
      then show ?thesis using d(6) cnt by simp
    qed
  qed
qed

lemma track_loop_inv:
  assumes "track_loop core r h sor_z st = Some (Inr st')"
    and "tracker_inv core st" and "set sor_z \<subseteq> set core"
  shows "tracker_inv core st' \<and> length (flow_accum st') = length (flow_accum st)
       \<and> set sor_z \<union> set (alr_counted st) \<subseteq> set (alr_counted st')"
  using assms
proof (induction sor_z arbitrary: st)
  case Nil
  then show ?case by simp
next
  case (Cons i sor_z)
  from Cons.prems(3) have ic: "i \<in> set core" and sub: "set sor_z \<subseteq> set core" by auto
  show ?case
  proof (cases "i \<in> set (alr_counted st)")
    case True
    with Cons.prems(1) have "track_loop core r h sor_z st = Some (Inr st')" by simp
    from Cons.IH[OF this Cons.prems(2) sub] True show ?thesis by auto
  next
    case False
    with Cons.prems(1) obtain ri where ri: "r i = Some ri" by (auto split: option.splits)
    show ?thesis
    proof (cases "ri = i")
      case True
      with Cons.prems(1) False ri obtain st1 where v: "visit_sink h i st = Inr st1"
        and rest: "track_loop core r h sor_z st1 = Some (Inr st')"
        by (auto split: sum.splits)
      note vi = visit_sink_inv[OF v Cons.prems(2) ic False]
      from Cons.IH[OF rest vi(1) sub] vi(2,3) show ?thesis by auto
    next
      case neq: False
      with Cons.prems(1) False ri obtain st1 where v: "segment_loop core r h i True 0 [] st = Some (Inr st1)"
        and rest: "track_loop core r h sor_z st1 = Some (Inr st')"
        by (auto split: sum.splits option.splits)
      from segment_loop_inv[OF v Cons.prems(2)] ic
      have vi: "tracker_inv core st1" "length (flow_accum st1) = length (flow_accum st)"
        "set (alr_counted st) \<subseteq> set (alr_counted st1)" "i \<in> set (alr_counted st1)" by auto
      from Cons.IH[OF rest vi(1) sub] vi(2,3,4) show ?thesis by auto
    qed
  qed
qed

lemma set_sor_z_of: "set (sor_z_of g) = set (core_nodes g)"
proof -
  have "set (sor_z_of g) = (\<lambda>k. core_nodes g ! k) ` {0..<length (core_nodes g)}"
    by (simp add: sor_z_of_def argsort_def)
  also have "\<dots> = set (core_nodes g)"
    by (auto simp: set_conv_nth)
  finally show ?thesis .
qed

lemma tracker_inv_init:
  "tracker_inv core \<lparr>alr_counted = [], flow_accum = replicate n 0, hsd_upstr = []\<rparr>"
  by (simp add: tracker_inv_def upstream_def)

lemma track_source_inv:
  assumes "track_source g r h = Some (Inr (hs, fa))"
  shows "\<exists>st. hs = hsd_upstr st \<and> fa = flow_accum st \<and> tracker_inv (core_nodes g) st
      \<and> length (flow_accum st) = number_of_nodes g \<and> set (core_nodes g) \<subseteq> set (alr_counted st)"
proof -
  from assms obtain st where
    run: "track_loop (core_nodes g) r h (sor_z_of g)
        \<lparr>alr_counted = [], flow_accum = replicate (number_of_nodes g) 0, hsd_upstr = []\<rparr> = Some (Inr st)"
    and res: "hs = hsd_upstr st" "fa = flow_accum st"
    by (auto simp: track_source_def split: if_splits option.splits sum.splits)
  from track_loop_inv[OF run tracker_inv_init] set_sor_z_of[of g] res
  show ?thesis by auto
qed

section \<open>Termination on acyclic inputs\<close>

lemma visit_node_ok:
  assumes "j < length (flow_accum st)" and "h j \<noteq> None"
  shows "\<exists>a' buf' st'. visit_node h j a buf st = Inr (a', buf', st')
           \<and> length (flow_accum st') = length (flow_accum st)"
  using assms by (auto simp: visit_node_def)

lemma segment_loop_terminates_False:
  assumes ok: "\<forall>n \<in> set core. n < N \<and> r n \<noteq> None \<and> h n \<noteq> None"
  shows "drains core r k j \<Longrightarrow> length (flow_accum st) = N \<Longrightarrow>
      \<exists>st'. segment_loop core r h j False a buf st = Some (Inr st')"
proof (induction k arbitrary: j a buf st)
  case 0
  then show ?case by simp
next
  case (Suc k)
  from Suc.prems(1) obtain j' where rj: "r j = Some j'"
    and d: "j' = j \<or> j' \<notin> set core \<or> drains core r k j'"
    by (auto split: option.splits)
  show ?case
  proof (cases "j' \<in> set core")
    case False
    then have "segment_step core r h j False a buf st = Break st"
      using rj by (simp add: segment_step_def)
    then show ?thesis by (subst segment_loop.simps) simp
  next
    case True
    with ok Suc.prems(2) have "j' < length (flow_accum st)" "h j' \<noteq> None" by auto
    with visit_node_ok[where h = h and j = j' and st = st and a = a and buf = buf] obtain a' buf' st1
      where v: "visit_node h j' a buf st = Inr (a', buf', st1)"
        and len: "length (flow_accum st1) = length (flow_accum st)" by blast
    from ok True obtain rj' where rj': "r j' = Some rj'" by auto
    show ?thesis
    proof (cases "rj' = j'")
      case eq: True
      then have "segment_step core r h j False a buf st = Break st1"
        using rj True v rj' by (simp add: segment_step_def)
      then show ?thesis by (subst segment_loop.simps) simp
    next
      case neq: False
      then have step: "segment_step core r h j False a buf st = Continue j' a' buf' st1"
        using rj True v rj' by (simp add: segment_step_def)
      from neq rj rj' have "j' \<noteq> j" by auto
      with d True have "drains core r k j'" by simp
      from Suc.IH[OF this, of st1 a' buf'] len Suc.prems(2)
      obtain st' where "segment_loop core r h j' False a' buf' st1 = Some (Inr st')" by auto
      with step show ?thesis by (subst segment_loop.simps) simp
    qed
  qed
qed

lemma segment_loop_terminates_True:
  assumes ok: "\<forall>n \<in> set core. n < N \<and> r n \<noteq> None \<and> h n \<noteq> None"
    and i: "i \<in> set core" and d: "drains core r k i" and len: "length (flow_accum st) = N"
  shows "\<exists>st'. segment_loop core r h i True a buf st = Some (Inr st')"
proof -
  from ok i len have "i < length (flow_accum st)" "h i \<noteq> None" by auto
  with visit_node_ok[where h = h and j = i and st = st and a = a and buf = buf] obtain a' buf' st1
    where v: "visit_node h i a buf st = Inr (a', buf', st1)"
      and len1: "length (flow_accum st1) = length (flow_accum st)" by blast
  from ok i obtain ri where ri: "r i = Some ri" by auto
  show ?thesis
  proof (cases "ri = i")
    case True
    then have "segment_step core r h i True a buf st = Break st1"
      using v ri by (simp add: segment_step_def)
    then show ?thesis by (subst segment_loop.simps) simp
  next
    case False
    then have step: "segment_step core r h i True a buf st = Continue i a' buf' st1"
      using v ri by (simp add: segment_step_def)
    from segment_loop_terminates_False[OF ok d, of st1 a' buf'] len len1
    obtain st' where "segment_loop core r h i False a' buf' st1 = Some (Inr st')" by auto
    with step show ?thesis by (subst segment_loop.simps) simp
  qed
qed

lemma track_loop_terminates:
  assumes ok: "\<forall>n \<in> set core. n < N \<and> r n \<noteq> None \<and> h n \<noteq> None"
    and dr: "\<forall>n \<in> set core. \<exists>k. drains core r k n"
  shows "set sor_z \<subseteq> set core \<Longrightarrow> tracker_inv core st \<Longrightarrow> length (flow_accum st) = N \<Longrightarrow>
      \<exists>st'. track_loop core r h sor_z st = Some (Inr st')"
proof (induction sor_z arbitrary: st)
  case Nil
  then show ?case by simp
next
  case (Cons i sor_z)
  from Cons.prems(1) have ic: "i \<in> set core" and sub: "set sor_z \<subseteq> set core" by auto
  show ?case
  proof (cases "i \<in> set (alr_counted st)")
    case True
    with Cons.IH[OF sub Cons.prems(2,3)] show ?thesis by simp
  next
    case False
    from ok ic obtain ri x where ri: "r i = Some ri" and x: "h i = Some x" and iN: "i < N" by auto
    show ?thesis
    proof (cases "ri = i")
      case True
      from x iN Cons.prems(3) obtain st1 where v: "visit_sink h i st = Inr st1"
        by (auto simp: visit_sink_def)
      note vi = visit_sink_inv[OF v Cons.prems(2) ic False]
      from Cons.IH[OF sub vi(1)] vi(2) Cons.prems(3)
      obtain st' where "track_loop core r h sor_z st1 = Some (Inr st')" by auto
      with False ri True v show ?thesis by simp
    next
      case neq: False
      from dr ic obtain k where k: "drains core r k i" by blast
      from segment_loop_terminates_True[OF ok ic k Cons.prems(3)]
      obtain st1 where v: "segment_loop core r h i True 0 [] st = Some (Inr st1)" by blast
      from segment_loop_inv[OF v Cons.prems(2)] ic
      have vi: "tracker_inv core st1" "length (flow_accum st1) = length (flow_accum st)" by auto
      from Cons.IH[OF sub vi(1)] vi(2) Cons.prems(3)
      obtain st' where "track_loop core r h sor_z st1 = Some (Inr st')" by auto
      with False ri neq v show ?thesis by simp
    qed
  qed
qed

lemma track_source_terminates:
  assumes wf: "well_formed g r h" and ac: "acyclic_flow g r"
  shows "\<exists>hs fa. track_source g r h = Some (Inr (hs, fa))"
proof -
  from wf have ok: "\<forall>n \<in> set (core_nodes g). n < number_of_nodes g \<and> r n \<noteq> None \<and> h n \<noteq> None"
    and z: "list_all (\<lambda>n. n < length (topographic_elevation g)) (core_nodes g)"
    by (auto simp: well_formed_def list_all_iff)
  from ac have dr: "\<forall>n \<in> set (core_nodes g). \<exists>k. drains (core_nodes g) r k n"
    by (simp add: acyclic_flow_def)
  have "set (sor_z_of g) \<subseteq> set (core_nodes g)" by (simp add: set_sor_z_of)
  from track_loop_terminates[OF ok dr this tracker_inv_init, of "number_of_nodes g"]
  obtain st' where "track_loop (core_nodes g) r h (sor_z_of g)
        \<lparr>alr_counted = [], flow_accum = replicate (number_of_nodes g) 0, hsd_upstr = []\<rparr> = Some (Inr st')"
    by auto
  with z show ?thesis by (simp add: track_source_def)
qed

section \<open>Nodes that no segment reaches\<close>

lemma visit_node_frame:
  assumes v: "visit_node h j a buf st = Inr (a', buf', st')" and n: "n \<noteq> j"
  shows "flow_accum st' ! n = flow_accum st ! n"
    and "map_of (hsd_upstr st') n = map_of (hsd_upstr st) n"
    and "n \<in> set (alr_counted st') \<longleftrightarrow> n \<in> set (alr_counted st)"
proof -
  note f = visit_node_Inr[OF v]
  show "flow_accum st' ! n = flow_accum st ! n" using f(2) n by simp
  show "map_of (hsd_upstr st') n = map_of (hsd_upstr st) n" using f(3) n by simp
  show "n \<in> set (alr_counted st') \<longleftrightarrow> n \<in> set (alr_counted st)"
    using f(4,5) n by (cases "flow_accum st ! j = 0") auto
qed

lemma segment_loop_frame:
  assumes run: "segment_loop core r h j sw a buf st = Some (Inr st')"
    and iso: "\<forall>m \<in> set core. m \<noteq> n \<longrightarrow> r m \<noteq> Some n"
    and j: "j \<noteq> n" "j \<in> set core"
  shows "flow_accum st' ! n = flow_accum st ! n \<and> map_of (hsd_upstr st') n = map_of (hsd_upstr st) n
       \<and> (n \<in> set (alr_counted st') \<longleftrightarrow> n \<in> set (alr_counted st))"
proof -
  have "\<forall>st'. y = Inr st' \<longrightarrow> j \<noteq> n \<longrightarrow> j \<in> set core \<longrightarrow>
      flow_accum st' ! n = flow_accum st ! n \<and> map_of (hsd_upstr st') n = map_of (hsd_upstr st) n
       \<and> (n \<in> set (alr_counted st') \<longleftrightarrow> n \<in> set (alr_counted st))"
    if "segment_loop core r h j sw a buf st = Some y" for y
    using that
  proof (induction rule: segment_loop_induct)
    case (Raise j sw a buf st e)
    show ?case by simp
  next
    case (Break j sw a buf st st1)
    show ?case
    proof (intro allI impI)
      fix st' assume eq: "Inr st1 = (Inr st' :: error + 'a tracker)" and jn: "j \<noteq> n" and jc: "j \<in> set core"
      from segment_step_Break[OF Break]
      show "flow_accum st' ! n = flow_accum st ! n \<and> map_of (hsd_upstr st') n = map_of (hsd_upstr st) n
       \<and> (n \<in> set (alr_counted st') \<longleftrightarrow> n \<in> set (alr_counted st))"
      proof (elim disjE conjE exE)
        assume "st1 = st"
        then show ?thesis using eq by simp
      next
        fix j' a' buf'
        assume j': "if sw then j' = j else r j = Some j' \<and> j' \<in> set core"
          and v: "visit_node h j' a buf st = Inr (a', buf', st1)"
        have "n \<noteq> j'" using j' jn jc iso by (auto split: if_splits)
        from visit_node_frame[OF v this] eq show ?thesis by simp
      qed
    qed
  next
    case (Continue j sw a buf st j' a' buf' st1 y)
    show ?case
    proof (intro allI impI)
      fix st' assume eq: "y = Inr st'" and jn: "j \<noteq> n" and jc: "j \<in> set core"
      note sc = segment_step_Continue[OF Continue(1)]
      have nj: "n \<noteq> j'" using sc jn jc iso by (auto split: if_splits)
      have j'c: "j' \<in> set core" using sc jc by (auto split: if_splits)
      from sc have v: "visit_node h j' a buf st = Inr (a', buf', st1)" by simp
      from Continue(2) eq nj j'c visit_node_frame[OF v nj]
      show "flow_accum st' ! n = flow_accum st ! n \<and> map_of (hsd_upstr st') n = map_of (hsd_upstr st) n
       \<and> (n \<in> set (alr_counted st') \<longleftrightarrow> n \<in> set (alr_counted st))"
        by simp
    qed
  qed
  with run j show ?thesis by blast
qed

lemma visit_sink_frame:
  assumes v: "visit_sink h i st = Inr st'" and n: "n \<noteq> i"
  shows "flow_accum st' ! n = flow_accum st ! n \<and> map_of (hsd_upstr st') n = map_of (hsd_upstr st) n
       \<and> (n \<in> set (alr_counted st') \<longleftrightarrow> n \<in> set (alr_counted st))"
  using assms by (auto simp: visit_sink_def update_conv' split: option.splits if_splits)

lemma visit_sink_at:
  assumes v: "visit_sink h n st = Inr st'" and z: "flow_accum st ! n = 0"
  shows "flow_accum st' ! n = 1 \<and> (\<exists>x. h n = Some x \<and> map_of (hsd_upstr st') n = Some [x])
       \<and> n \<in> set (alr_counted st')"
  using assms by (auto simp: visit_sink_def update_conv' split: option.splits if_splits)

lemma track_loop_isolated_done:
  assumes iso: "\<forall>m \<in> set core. m \<noteq> n \<longrightarrow> r m \<noteq> Some n"
  shows "track_loop core r h sor_z st = Some (Inr st') \<Longrightarrow> set sor_z \<subseteq> set core \<Longrightarrow>
      n \<in> set (alr_counted st) \<Longrightarrow>
      flow_accum st' ! n = flow_accum st ! n \<and> map_of (hsd_upstr st') n = map_of (hsd_upstr st) n"
proof (induction sor_z arbitrary: st)
  case Nil
  then show ?case by simp
next
  case (Cons i sor_z)
  from Cons.prems(2) have ic: "i \<in> set core" and sub: "set sor_z \<subseteq> set core" by auto
  show ?case
  proof (cases "i \<in> set (alr_counted st)")
    case True
    with Cons.prems(1) have "track_loop core r h sor_z st = Some (Inr st')" by simp
    from Cons.IH[OF this sub Cons.prems(3)] show ?thesis .
  next
    case False
    with Cons.prems(3) have ni: "n \<noteq> i" by auto
    from False Cons.prems(1) obtain ri where ri: "r i = Some ri" by (auto split: option.splits)
    show ?thesis
    proof (cases "ri = i")
      case True
      with Cons.prems(1) False ri obtain st1 where v: "visit_sink h i st = Inr st1"
        and rest: "track_loop core r h sor_z st1 = Some (Inr st')"
        by (auto split: sum.splits)
      note fr = visit_sink_frame[OF v ni]
      with Cons.prems(3) have "n \<in> set (alr_counted st1)" by simp
      from Cons.IH[OF rest sub this] fr show ?thesis by simp
    next
      case neq: False
      with Cons.prems(1) False ri obtain st1 where v: "segment_loop core r h i True 0 [] st = Some (Inr st1)"
        and rest: "track_loop core r h sor_z st1 = Some (Inr st')"
        by (auto split: sum.splits option.splits)
      from ni have "i \<noteq> n" by simp
      note fr = segment_loop_frame[OF v iso this ic]
      with Cons.prems(3) have "n \<in> set (alr_counted st1)" by simp
      from Cons.IH[OF rest sub this] fr show ?thesis by simp
    qed
  qed
qed

lemma track_loop_isolated:
  assumes iso: "\<forall>m \<in> set core. m \<noteq> n \<longrightarrow> r m \<noteq> Some n"
    and sink: "r n = Some n"
  shows "track_loop core r h sor_z st = Some (Inr st') \<Longrightarrow> set sor_z \<subseteq> set core \<Longrightarrow>
      n \<in> set sor_z \<Longrightarrow> n \<notin> set (alr_counted st) \<Longrightarrow> flow_accum st ! n = 0 \<Longrightarrow>
      flow_accum st' ! n = 1 \<and> (\<exists>x. h n = Some x \<and> map_of (hsd_upstr st') n = Some [x])"
proof (induction sor_z arbitrary: st)
  case Nil
  then show ?case by simp
next
  case (Cons i sor_z)
  from Cons.prems(2) have ic: "i \<in> set core" and sub: "set sor_z \<subseteq> set core" by auto
  show ?case
  proof (cases "i = n")
    case True
    with Cons.prems(1,4) sink obtain st1 where v: "visit_sink h n st = Inr st1"
      and rest: "track_loop core r h sor_z st1 = Some (Inr st')"
      by (auto split: sum.splits)
    note at = visit_sink_at[OF v Cons.prems(5)]
    from track_loop_isolated_done[OF iso rest sub] at show ?thesis by auto
  next
    case ni: False
    with Cons.prems(3) have ns: "n \<in> set sor_z" by simp
    from ni have ni': "n \<noteq> i" by simp
    show ?thesis
    proof (cases "i \<in> set (alr_counted st)")
      case True
      with Cons.prems(1) have "track_loop core r h sor_z st = Some (Inr st')" by simp
      from Cons.IH[OF this sub ns Cons.prems(4,5)] show ?thesis .
    next
      case False
      from False Cons.prems(1) obtain ri where ri: "r i = Some ri" by (auto split: option.splits)
      show ?thesis
      proof (cases "ri = i")
        case True
        with Cons.prems(1) False ri obtain st1 where v: "visit_sink h i st = Inr st1"
          and rest: "track_loop core r h sor_z st1 = Some (Inr st')"
          by (auto split: sum.splits)
        note fr = visit_sink_frame[OF v ni']
        with Cons.prems(4,5) have "n \<notin> set (alr_counted st1)" "flow_accum st1 ! n = 0" by simp_all
        from Cons.IH[OF rest sub ns this] show ?thesis .
      next
        case neq: False
        with Cons.prems(1) False ri obtain st1 where v: "segment_loop core r h i True 0 [] st = Some (Inr st1)"
          and rest: "track_loop core r h sor_z st1 = Some (Inr st')"
          by (auto split: sum.splits option.splits)
        note fr = segment_loop_frame[OF v iso ni ic]
        with Cons.prems(4,5) have "n \<notin> set (alr_counted st1)" "flow_accum st1 ! n = 0" by simp_all
        from Cons.IH[OF rest sub ns this] show ?thesis .
      qed
    qed
  qed
qed

section \<open>A run that ends has followed chains that end\<close>

lemma drains_step:
  assumes "r j = Some j'" and "j' = j \<or> j' \<notin> set core \<or> (\<exists>k. drains core r k j')"
  shows "\<exists>k. drains core r k j"
proof -
  from assms(2) consider "j' = j \<or> j' \<notin> set core" | k where "drains core r k j'" by blast
  then show ?thesis
  proof cases
    case 1
    with assms(1) have "drains core r (Suc 0) j" by auto
    then show ?thesis ..
  next
    case 2
    with assms(1) have "drains core r (Suc k) j" by simp
    then show ?thesis ..
  qed
qed

lemma visit_node_counted:
  assumes v: "visit_node h j a buf st = Inr (a', buf', st')"
  shows "set (alr_counted st') \<subseteq> insert j (set (alr_counted st))"
  using visit_node_Inr(4,5)[OF v] by (cases "flow_accum st ! j = 0") auto

lemma segment_loop_drains:
  assumes run: "segment_loop core r h j sw a buf st = Some (Inr st')"
  shows "(if sw then \<exists>k. drains core r k j
          else \<exists>j'. r j = Some j' \<and> (j' \<notin> set core \<or> (\<exists>k. drains core r k j')))
       \<and> ((\<forall>n \<in> set (alr_counted st). \<exists>k. drains core r k n) \<longrightarrow>
            (\<forall>n \<in> set (alr_counted st'). \<exists>k. drains core r k n))"
proof -
  have "\<forall>st'. y = Inr st' \<longrightarrow>
      (if sw then \<exists>k. drains core r k j
          else \<exists>j'. r j = Some j' \<and> (j' \<notin> set core \<or> (\<exists>k. drains core r k j')))
       \<and> ((\<forall>n \<in> set (alr_counted st). \<exists>k. drains core r k n) \<longrightarrow>
            (\<forall>n \<in> set (alr_counted st'). \<exists>k. drains core r k n))"
    if "segment_loop core r h j sw a buf st = Some y" for y
    using that
  proof (induction rule: segment_loop_induct)
    case (Raise j sw a buf st e)
    show ?case by simp
  next
    case (Break j sw a buf st st1)
    show ?case
    proof (intro allI impI)
      fix st' assume eq: "Inr st1 = (Inr st' :: error + 'a tracker)"
      from segment_step_Break[OF Break]
      show "(if sw then \<exists>k. drains core r k j
          else \<exists>j'. r j = Some j' \<and> (j' \<notin> set core \<or> (\<exists>k. drains core r k j')))
       \<and> ((\<forall>n \<in> set (alr_counted st). \<exists>k. drains core r k n) \<longrightarrow>
            (\<forall>n \<in> set (alr_counted st'). \<exists>k. drains core r k n))"
      proof (elim disjE conjE exE)
        fix j' assume "\<not> sw" "st1 = st" "r j = Some j'" "j' \<notin> set core"
        then show ?thesis using eq by simp
      next
        fix j' a' buf'
        assume j': "if sw then j' = j else r j = Some j' \<and> j' \<in> set core"
          and v: "visit_node h j' a buf st = Inr (a', buf', st1)" and s: "r j' = Some j'"
        have d: "\<exists>k. drains core r k j'" using drains_step[of r j' j' core] s by simp
        have "set (alr_counted st') \<subseteq> insert j' (set (alr_counted st))"
          using visit_node_counted[OF v] eq by simp
        with d have "(\<forall>n \<in> set (alr_counted st). \<exists>k. drains core r k n) \<longrightarrow>
            (\<forall>n \<in> set (alr_counted st'). \<exists>k. drains core r k n)" by blast
        moreover have "if sw then \<exists>k. drains core r k j
          else \<exists>j'. r j = Some j' \<and> (j' \<notin> set core \<or> (\<exists>k. drains core r k j'))"
          using j' d by (auto split: if_splits)
        ultimately show ?thesis by simp
      qed
    qed
  next
    case (Continue j sw a buf st j' a' buf' st1 y)
    show ?case
    proof (intro allI impI)
      fix st' assume eq: "y = Inr st'"
      note sc = segment_step_Continue[OF Continue(1)]
      from sc have v: "visit_node h j' a buf st = Inr (a', buf', st1)" by simp
      from Continue(2) eq have ihA: "\<exists>j''. r j' = Some j'' \<and> (j'' \<notin> set core \<or> (\<exists>k. drains core r k j''))"
        and ihB: "(\<forall>n \<in> set (alr_counted st1). \<exists>k. drains core r k n) \<longrightarrow>
            (\<forall>n \<in> set (alr_counted st'). \<exists>k. drains core r k n)" by simp_all
      from ihA obtain j'' where "r j' = Some j''" "j'' \<notin> set core \<or> (\<exists>k. drains core r k j'')" by blast
      then have d: "\<exists>k. drains core r k j'" using drains_step[of r j' j'' core] by blast
      have "set (alr_counted st1) \<subseteq> insert j' (set (alr_counted st))"
        using visit_node_counted[OF v] .
      with d ihB have "(\<forall>n \<in> set (alr_counted st). \<exists>k. drains core r k n) \<longrightarrow>
            (\<forall>n \<in> set (alr_counted st'). \<exists>k. drains core r k n)" by blast
      moreover have "if sw then \<exists>k. drains core r k j
          else \<exists>j'. r j = Some j' \<and> (j' \<notin> set core \<or> (\<exists>k. drains core r k j'))"
        using sc d by (auto split: if_splits)
      ultimately show "(if sw then \<exists>k. drains core r k j
          else \<exists>j'. r j = Some j' \<and> (j' \<notin> set core \<or> (\<exists>k. drains core r k j')))
       \<and> ((\<forall>n \<in> set (alr_counted st). \<exists>k. drains core r k n) \<longrightarrow>
            (\<forall>n \<in> set (alr_counted st'). \<exists>k. drains core r k n))" by simp
    qed
  qed
  with run show ?thesis by blast
qed

lemma track_loop_drains:
  "track_loop core r h sor_z st = Some (Inr st') \<Longrightarrow>
    \<forall>n \<in> set (alr_counted st). \<exists>k. drains core r k n \<Longrightarrow>
    \<forall>n \<in> set (alr_counted st'). \<exists>k. drains core r k n"
proof (induction sor_z arbitrary: st)
  case Nil
  then show ?case by simp
next
  case (Cons i sor_z)
  show ?case
  proof (cases "i \<in> set (alr_counted st)")
    case True
    with Cons.prems(1) have "track_loop core r h sor_z st = Some (Inr st')" by simp
    from Cons.IH[OF this Cons.prems(2)] show ?thesis .
  next
    case False
    from False Cons.prems(1) obtain ri where ri: "r i = Some ri" by (auto split: option.splits)
    show ?thesis
    proof (cases "ri = i")
      case True
      with Cons.prems(1) False ri obtain st1 where v: "visit_sink h i st = Inr st1"
        and rest: "track_loop core r h sor_z st1 = Some (Inr st')"
        by (auto split: sum.splits)
      from v have c: "set (alr_counted st1) = insert i (set (alr_counted st))"
        by (auto simp: visit_sink_def split: option.splits if_splits)
      from ri True have "\<exists>k. drains core r k i" using drains_step[of r i i core] by simp
      with c Cons.prems(2) have "\<forall>n \<in> set (alr_counted st1). \<exists>k. drains core r k n" by simp
      from Cons.IH[OF rest this] show ?thesis .
    next
      case neq: False
      with Cons.prems(1) False ri obtain st1 where v: "segment_loop core r h i True 0 [] st = Some (Inr st1)"
        and rest: "track_loop core r h sor_z st1 = Some (Inr st')"
        by (auto split: sum.splits option.splits)
      from segment_loop_drains[OF v] Cons.prems(2)
      have "\<forall>n \<in> set (alr_counted st1). \<exists>k. drains core r k n" by simp
      from Cons.IH[OF rest this] show ?thesis .
    qed
  qed
qed

lemma track_source_completes_acyclic:
  assumes "track_source g r h = Some (Inr res)"
  shows "acyclic_flow g r"
proof -
  obtain hs fa where res: "res = (hs, fa)" by (cases res)
  from assms res obtain st where
    run: "track_loop (core_nodes g) r h (sor_z_of g)
        \<lparr>alr_counted = [], flow_accum = replicate (number_of_nodes g) 0, hsd_upstr = []\<rparr> = Some (Inr st)"
    by (auto simp: track_source_def split: if_splits option.splits sum.splits)
  from track_loop_drains[OF run]
  have d: "\<forall>n \<in> set (alr_counted st). \<exists>k. drains (core_nodes g) r k n" by simp
  from track_loop_inv[OF run tracker_inv_init] set_sor_z_of[of g]
  have "set (core_nodes g) \<subseteq> set (alr_counted st)" by auto
  with d show ?thesis unfolding acyclic_flow_def by blast
qed

lemma segment_step_no_Raise:
  assumes ok: "\<forall>n \<in> set core. n < N \<and> r n \<noteq> None \<and> h n \<noteq> None"
    and len: "length (flow_accum st) = N" and j: "j \<in> set core"
  shows "segment_step core r h j sw a buf st \<noteq> Raise e"
proof -
  from ok j obtain j' where rj: "r j = Some j'" by auto
  have *: "visit_node h m a buf st \<noteq> Inl e'" "r m \<noteq> None" if "m \<in> set core" for m e'
    using ok len that by (auto simp: visit_node_def split: option.splits)
  show ?thesis
  proof (cases sw)
    case True
    then show ?thesis using *[OF j]
      by (auto simp: segment_step_def split: sum.splits option.splits)
  next
    case False
    then show ?thesis using rj *[of j']
      by (auto simp: segment_step_def split: sum.splits option.splits)
  qed
qed

lemma segment_loop_no_error:
  assumes ok: "\<forall>n \<in> set core. n < N \<and> r n \<noteq> None \<and> h n \<noteq> None"
    and run: "segment_loop core r h j sw a buf st = Some y"
    and len: "length (flow_accum st) = N" and j: "j \<in> set core"
  shows "\<exists>st'. y = Inr st'"
proof -
  have "length (flow_accum st) = N \<longrightarrow> j \<in> set core \<longrightarrow> (\<exists>st'. y = Inr st')"
    using run
  proof (induction rule: segment_loop_induct)
    case (Raise j sw a buf st e)
    then show ?case using segment_step_no_Raise[OF ok] by blast
  next
    case (Break j sw a buf st st')
    show ?case by simp
  next
    case (Continue j sw a buf st j' a' buf' st1 y)
    show ?case
    proof (intro impI)
      assume len: "length (flow_accum st) = N" and jc: "j \<in> set core"
      note sc = segment_step_Continue[OF Continue(1)]
      have j'c: "j' \<in> set core" using sc jc by (auto split: if_splits)
      from sc have v: "visit_node h j' a buf st = Inr (a', buf', st1)" by simp
      from visit_node_Inr(2)[OF v] len have "length (flow_accum st1) = N" by simp
      with Continue(2) j'c show "\<exists>st'. y = Inr st'" by simp
    qed
  qed
  with len j show ?thesis by simp
qed

lemma track_loop_no_error:
  assumes ok: "\<forall>n \<in> set core. n < N \<and> r n \<noteq> None \<and> h n \<noteq> None"
  shows "track_loop core r h sor_z st = Some y \<Longrightarrow> set sor_z \<subseteq> set core \<Longrightarrow>
      tracker_inv core st \<Longrightarrow> length (flow_accum st) = N \<Longrightarrow> \<exists>st'. y = Inr st'"
proof (induction sor_z arbitrary: st)
  case Nil
  then show ?case by auto
next
  case (Cons i sor_z)
  from Cons.prems(2) have ic: "i \<in> set core" and sub: "set sor_z \<subseteq> set core" by auto
  show ?case
  proof (cases "i \<in> set (alr_counted st)")
    case True
    with Cons.prems(1) have "track_loop core r h sor_z st = Some y" by simp
    from Cons.IH[OF this sub Cons.prems(3,4)] show ?thesis .
  next
    case False
    from ok ic obtain ri x where ri: "r i = Some ri" and x: "h i = Some x" and iN: "i < N" by auto
    show ?thesis
    proof (cases "ri = i")
      case True
      from x iN Cons.prems(4) obtain st1 where v: "visit_sink h i st = Inr st1"
        by (auto simp: visit_sink_def)
      with Cons.prems(1) False ri True have rest: "track_loop core r h sor_z st1 = Some y" by simp
      note vi = visit_sink_inv[OF v Cons.prems(3) ic False]
      from Cons.IH[OF rest sub vi(1)] vi(2) Cons.prems(4) show ?thesis by simp
    next
      case neq: False
      with Cons.prems(1) False ri obtain y1 where v: "segment_loop core r h i True 0 [] st = Some y1"
        by (auto split: option.splits)
      from segment_loop_no_error[OF ok v Cons.prems(4) ic] obtain st1 where y1: "y1 = Inr st1" by blast
      with Cons.prems(1) False ri neq v have rest: "track_loop core r h sor_z st1 = Some y" by simp
      from segment_loop_inv[OF v[unfolded y1] Cons.prems(3)] ic
      have vi: "tracker_inv core st1" "length (flow_accum st1) = length (flow_accum st)" by auto
      from Cons.IH[OF rest sub vi(1)] vi(2) Cons.prems(4) show ?thesis by simp
    qed
  qed
qed

lemma track_source_no_error:
  assumes wf: "well_formed g r h"
  shows "track_source g r h \<noteq> Some (Inl e)"
proof
  assume a: "track_source g r h = Some (Inl e)"
  from wf have ok: "\<forall>n \<in> set (core_nodes g). n < number_of_nodes g \<and> r n \<noteq> None \<and> h n \<noteq> None"
    and z: "list_all (\<lambda>n. n < length (topographic_elevation g)) (core_nodes g)"
    by (auto simp: well_formed_def list_all_iff)
  from a z have "track_loop (core_nodes g) r h (sor_z_of g)
        \<lparr>alr_counted = [], flow_accum = replicate (number_of_nodes g) 0, hsd_upstr = []\<rparr> = Some (Inl e)"
    by (auto simp: track_source_def split: option.splits sum.splits)
  from track_loop_no_error[OF ok this _ tracker_inv_init] set_sor_z_of[of g]
  show False by auto
qed

lemma track_source_cyclic:
  assumes wf: "well_formed g r h" and cyc: "\<not> acyclic_flow g r"
  shows "track_source g r h = None"
proof (cases "track_source g r h")
  case None
  then show ?thesis .
next
  case (Some y)
  show ?thesis
  proof (cases y)
    case (Inl e)
    with Some track_source_no_error[OF wf] show ?thesis by simp
  next
    case (Inr res)
    with Some track_source_completes_acyclic cyc show ?thesis by blast
  qed
qed

section \<open>Receivers collect more than the nodes that drain to them\<close>

lemma visit_node_owed:
  assumes v: "visit_node h j' a buf st = Inr (a', buf', st')"
    and inv: "tracker_inv core st"
    and others': "\<forall>m \<in> set (alr_counted st). m \<noteq> j \<longrightarrow> edge_ok core r st m"
    and before': "j \<noteq> j' \<longrightarrow> r j = Some j' \<and> owed core r st j a"
    and first': "j = j' \<longrightarrow> flow_accum st ! j' = 0"
    and jc: "j' \<in> set core"
  shows "\<forall>m \<in> set (alr_counted st'). m \<noteq> j' \<longrightarrow> edge_ok core r st' m"
    and "owed core r st' j' a'"
proof -
  have others: "\<And>m. m \<in> set (alr_counted st) \<Longrightarrow> m \<noteq> j \<Longrightarrow> edge_ok core r st m"
    using others' by blast
  have before: "j \<noteq> j' \<Longrightarrow> r j = Some j' \<and> owed core r st j a" using before' by blast
  have first: "j = j' \<Longrightarrow> flow_accum st ! j' = 0" using first' by blast
  note f = visit_node_Inr[OF v]
  note i = tracker_invD[OF inv]
  let ?fa = "flow_accum st" and ?fa' = "flow_accum st'"
  have len: "length ?fa' = length ?fa" using f(2) by simp
  have a': "a' = a + (if ?fa ! j' = 0 then 1 else 0)" using f(4,5) by (cases "?fa ! j' = 0") simp_all
  have same: "?fa' ! n = ?fa ! n" if "n \<noteq> j'" for n using f(2) that by simp
  have at: "?fa' ! j' = ?fa ! j' + a'" using f(1,2) by simp
  have mono: "?fa ! n \<le> ?fa' ! n" for n
    using same[of n] at by (cases "n = j'") simp_all
  have cnt: "m \<in> set (alr_counted st)" if "m \<in> set (alr_counted st')" "m \<noteq> j'" for m
    using that f(4,5) by (cases "?fa ! j' = 0") auto
  have "edge_ok core r st' m" if m: "m \<in> set (alr_counted st')" and ne: "m \<noteq> j'" for m
    unfolding edge_ok_def
  proof (intro allI impI)
    fix n assume e: "r m = Some n \<and> n \<noteq> m \<and> n \<in> set core"
    show "n < length ?fa' \<and> ?fa' ! m < ?fa' ! n"
    proof (cases "m = j")
      case True
      with ne before have rj: "r j = Some j'" and ow: "owed core r st j a" by simp_all
      from e True rj have n: "n = j'" by simp
      from ow rj ne True jc f(1)
      have "?fa ! j + 1 \<le> ?fa ! j' + a + (if ?fa ! j' = 0 then 1 else 0)"
        unfolding owed_def by auto
      with a' at same[of j] ne True n f(1) len show ?thesis by simp
    next
      case False
      from others[OF cnt[OF m ne] False] e
      have "n < length ?fa" "?fa ! m < ?fa ! n" unfolding edge_ok_def by blast+
      with same[OF ne] mono[of n] len show ?thesis by simp
    qed
  qed
  then show "\<forall>m \<in> set (alr_counted st'). m \<noteq> j' \<longrightarrow> edge_ok core r st' m" by blast
  show "owed core r st' j' a'"
    unfolding owed_def
  proof (intro allI impI)
    fix n assume e: "r j' = Some n \<and> n \<noteq> j' \<and> n \<in> set core \<and> n < length ?fa'"
    then have sn: "?fa' ! n = ?fa ! n" using same by simp
    show "?fa' ! j' + 1 \<le> ?fa' ! n + a' + (if ?fa' ! n = 0 then 1 else 0)"
    proof (cases "?fa ! j' = 0")
      case True
      with at sn show ?thesis by simp
    next
      case False
      then have ne: "j' \<noteq> j" using first by auto
      from False i(2)[OF f(1)] have "j' \<in> set (alr_counted st)" by simp
      from others[OF this ne] e have "?fa ! j' < ?fa ! n" unfolding edge_ok_def by blast
      with at sn a' False show ?thesis by simp
    qed
  qed
qed

lemma segment_loop_more:
  assumes run: "segment_loop core r h j sw a buf st = Some (Inr st')"
    and inv: "tracker_inv core st" and a: "a = length buf" and c: "sw \<longrightarrow> j \<in> set core"
    and others: "\<forall>m \<in> set (alr_counted st). m \<noteq> j \<longrightarrow> edge_ok core r st m"
    and start: "sw \<longrightarrow> j \<notin> set (alr_counted st)"
    and later: "\<not> sw \<longrightarrow> r j \<noteq> Some j \<and> owed core r st j a"
  shows "downstream_more core r st'"
proof -
  have "\<forall>st'. y = Inr st' \<longrightarrow> tracker_inv core st \<longrightarrow> a = length buf \<longrightarrow> (sw \<longrightarrow> j \<in> set core) \<longrightarrow>
      (\<forall>m \<in> set (alr_counted st). m \<noteq> j \<longrightarrow> edge_ok core r st m) \<longrightarrow>
      (sw \<longrightarrow> j \<notin> set (alr_counted st)) \<longrightarrow>
      (\<not> sw \<longrightarrow> r j \<noteq> Some j \<and> owed core r st j a) \<longrightarrow>
      downstream_more core r st'"
    if "segment_loop core r h j sw a buf st = Some y" for y
    using that
  proof (induction rule: segment_loop_induct)
    case (Raise j sw a buf st e)
    show ?case by simp
  next
    case (Break j sw a buf st st1)
    show ?case
    proof (intro allI impI)
      fix st' assume eq: "Inr st1 = (Inr st' :: error + 'a tracker)"
        and inv: "tracker_inv core st" and a: "a = length buf" and c: "sw \<longrightarrow> j \<in> set core"
        and others: "\<forall>m \<in> set (alr_counted st). m \<noteq> j \<longrightarrow> edge_ok core r st m"
        and start: "sw \<longrightarrow> j \<notin> set (alr_counted st)"
        and later: "\<not> sw \<longrightarrow> r j \<noteq> Some j \<and> owed core r st j a"
      from eq have s: "st' = st1" by simp
      from segment_step_Break[OF Break] show "downstream_more core r st'"
      proof (elim disjE conjE exE)
        fix j'
        assume same: "st1 = st" and out: "r j = Some j'" "j' \<notin> set core"
        have ej: "edge_ok core r st j" using out by (simp add: edge_ok_def)
        show ?thesis
          unfolding downstream_more_def s same
        proof
          fix m assume "m \<in> set (alr_counted st)"
          with others ej show "edge_ok core r st m" by (cases "m = j") simp_all
        qed
      next
        fix j' a' buf'
        assume j': "if sw then j' = j else r j = Some j' \<and> j' \<in> set core"
          and v: "visit_node h j' a buf st = Inr (a', buf', st1)" and sink: "r j' = Some j'"
        have jc: "j' \<in> set core" using j' c by (cases sw) simp_all
        note f = visit_node_Inr[OF v]
        note d = tracker_invD[OF inv]
        have sw_eq: "sw \<Longrightarrow> j' = j" using j' by simp
        have nsw: "\<not> sw \<Longrightarrow> r j = Some j' \<and> r j \<noteq> Some j \<and> owed core r st j a"
          using j' later by simp
        have b: "j \<noteq> j' \<longrightarrow> r j = Some j' \<and> owed core r st j a"
          using sw_eq nsw by (cases sw) auto
        have zero: "j = j' \<longrightarrow> flow_accum st ! j' = 0"
        proof
          assume e: "j = j'"
          have sw using nsw e by (cases sw) auto
          with start e have "j' \<notin> set (alr_counted st)" by simp
          with d(2)[OF f(1)] show "flow_accum st ! j' = 0" by auto
        qed
        note vo = visit_node_owed[OF v inv others b zero jc]
        have ej: "edge_ok core r st1 j'" using sink by (simp add: edge_ok_def)
        show ?thesis
          unfolding downstream_more_def s
        proof
          fix m assume m: "m \<in> set (alr_counted st1)"
          show "edge_ok core r st1 m"
          proof (cases "m = j'")
            case True
            with ej show ?thesis by simp
          next
            case False
            with m vo(1) show ?thesis by blast
          qed
        qed
      qed
    qed
  next
    case (Continue j sw a buf st j' a' buf' st1 y)
    show ?case
    proof (intro allI impI)
      fix st' assume eq: "y = Inr st'"
        and inv: "tracker_inv core st" and a: "a = length buf" and c: "sw \<longrightarrow> j \<in> set core"
        and others: "\<forall>m \<in> set (alr_counted st). m \<noteq> j \<longrightarrow> edge_ok core r st m"
        and start: "sw \<longrightarrow> j \<notin> set (alr_counted st)"
        and later: "\<not> sw \<longrightarrow> r j \<noteq> Some j \<and> owed core r st j a"
      note sc = segment_step_Continue[OF Continue(1)]
      from sc have j': "if sw then j' = j else r j = Some j' \<and> j' \<in> set core"
        and v: "visit_node h j' a buf st = Inr (a', buf', st1)"
        and nsink: "r j' \<noteq> Some j'"
        by auto
      have jc: "j' \<in> set core" using j' c by (cases sw) simp_all
      note vi = visit_node_inv[OF v inv a jc]
      note f = visit_node_Inr[OF v]
      note d = tracker_invD[OF inv]
      have sw_eq: "sw \<Longrightarrow> j' = j" using j' by simp
      have nsw: "\<not> sw \<Longrightarrow> r j = Some j' \<and> r j \<noteq> Some j \<and> owed core r st j a"
        using j' later by simp
      have b: "j \<noteq> j' \<longrightarrow> r j = Some j' \<and> owed core r st j a"
        using sw_eq nsw by (cases sw) auto
      have zero: "j = j' \<longrightarrow> flow_accum st ! j' = 0"
      proof
        assume e: "j = j'"
        have sw using nsw e by (cases sw) auto
        with start e have "j' \<notin> set (alr_counted st)" by simp
        with d(2)[OF f(1)] show "flow_accum st ! j' = 0" by auto
      qed
      note vo = visit_node_owed[OF v inv others b zero jc]
      note B = vo(1)
      have L: "\<not> False \<longrightarrow> r j' \<noteq> Some j' \<and> owed core r st1 j' a'"
        using nsink vo(2) by simp
      from Continue(2) have "y = Inr st' \<longrightarrow> tracker_inv core st1 \<longrightarrow> a' = length buf' \<longrightarrow>
          (False \<longrightarrow> j' \<in> set core) \<longrightarrow>
          (\<forall>m \<in> set (alr_counted st1). m \<noteq> j' \<longrightarrow> edge_ok core r st1 m) \<longrightarrow>
          (False \<longrightarrow> j' \<notin> set (alr_counted st1)) \<longrightarrow>
          (\<not> False \<longrightarrow> r j' \<noteq> Some j' \<and> owed core r st1 j' a') \<longrightarrow>
          downstream_more core r st'"
        by (rule spec)
      with eq vi(1) vi(2) B L show "downstream_more core r st'" by simp
    qed
  qed
  from this[OF run] inv a c others start later show ?thesis by simp
qed

lemma visit_sink_more:
  assumes v: "visit_sink h i st = Inr st'" and sink: "r i = Some i"
    and more: "downstream_more core r st"
  shows "downstream_more core r st'"
proof -
  from v obtain x where il: "i < length (flow_accum st)"
    and st': "st' = \<lparr>alr_counted = alr_counted st @ [i],
                  flow_accum = (flow_accum st)[i := flow_accum st ! i + 1],
                  hsd_upstr = AList.update i [x] (hsd_upstr st)\<rparr>"
    by (auto simp: visit_sink_def split: option.splits if_splits)
  let ?fa = "flow_accum st" and ?fa' = "flow_accum st'"
  have same: "?fa' ! n = ?fa ! n" if "n \<noteq> i" for n using st' that by simp
  have mono: "?fa ! n \<le> ?fa' ! n" for n using st' il by (cases "n = i") simp_all
  have len: "length ?fa' = length ?fa" using st' by simp
  show ?thesis
    unfolding downstream_more_def
  proof
    fix m assume m: "m \<in> set (alr_counted st')"
    show "edge_ok core r st' m"
    proof (cases "m = i")
      case True
      with sink show ?thesis by (simp add: edge_ok_def)
    next
      case False
      with m st' have "m \<in> set (alr_counted st)" by simp
      with more have e: "edge_ok core r st m" by (simp add: downstream_more_def)
      show ?thesis
        unfolding edge_ok_def
      proof (intro allI impI)
        fix n assume "r m = Some n \<and> n \<noteq> m \<and> n \<in> set core"
        with e have "n < length ?fa" "?fa ! m < ?fa ! n" unfolding edge_ok_def by blast+
        with same[OF False] mono[of n] len show "n < length ?fa' \<and> ?fa' ! m < ?fa' ! n" by simp
      qed
    qed
  qed
qed

lemma track_loop_more:
  assumes "track_loop core r h sor_z st = Some (Inr st')"
    and "tracker_inv core st" and "set sor_z \<subseteq> set core" and "downstream_more core r st"
  shows "downstream_more core r st'"
  using assms
proof (induction sor_z arbitrary: st)
  case Nil
  then show ?case by simp
next
  case (Cons i sor_z)
  from Cons.prems(3) have ic: "i \<in> set core" and sub: "set sor_z \<subseteq> set core" by auto
  show ?case
  proof (cases "i \<in> set (alr_counted st)")
    case True
    with Cons.prems(1) have "track_loop core r h sor_z st = Some (Inr st')" by simp
    from Cons.IH[OF this Cons.prems(2) sub Cons.prems(4)] show ?thesis .
  next
    case False
    with Cons.prems(1) obtain ri where ri: "r i = Some ri" by (auto split: option.splits)
    show ?thesis
    proof (cases "ri = i")
      case True
      with Cons.prems(1) False ri obtain st1 where v: "visit_sink h i st = Inr st1"
        and rest: "track_loop core r h sor_z st1 = Some (Inr st')"
        by (auto split: sum.splits)
      note vi = visit_sink_inv[OF v Cons.prems(2) ic False]
      from ri True have sink: "r i = Some i" by simp
      note m1 = visit_sink_more[OF v sink Cons.prems(4)]
      from Cons.IH[OF rest vi(1) sub m1] show ?thesis .
    next
      case neq: False
      with Cons.prems(1) False ri obtain st1 where v: "segment_loop core r h i True 0 [] st = Some (Inr st1)"
        and rest: "track_loop core r h sor_z st1 = Some (Inr st')"
        by (auto split: sum.splits option.splits)
      have a0: "0 = length ([] :: 'a list)" by simp
      have c: "True \<longrightarrow> i \<in> set core" using ic by simp
      from segment_loop_inv[OF v Cons.prems(2) a0 c]
      have vi: "tracker_inv core st1" by simp
      have others: "\<forall>m \<in> set (alr_counted st). m \<noteq> i \<longrightarrow> edge_ok core r st m"
        using Cons.prems(4) by (simp add: downstream_more_def)
      have start: "True \<longrightarrow> i \<notin> set (alr_counted st)" using False by simp
      have later: "\<not> True \<longrightarrow> r i \<noteq> Some i \<and> owed core r st i 0" by simp
      note m1 = segment_loop_more[OF v Cons.prems(2) a0 c others start later]
      from Cons.IH[OF rest vi sub m1] show ?thesis .
    qed
  qed
qed

lemma track_source_more:
  assumes run: "track_source g r h = Some (Inr (hs, fa))"
    and m: "m \<in> set (core_nodes g)" and n: "n \<in> set (core_nodes g)"
    and e: "r m = Some n" "m \<noteq> n"
  shows "n < length fa \<and> 2 \<le> fa ! n \<and> 2 \<le> length (upstream hs n)"
proof -
  from run obtain st where
    loop: "track_loop (core_nodes g) r h (sor_z_of g)
        \<lparr>alr_counted = [], flow_accum = replicate (number_of_nodes g) 0, hsd_upstr = []\<rparr> = Some (Inr st)"
    and st: "hs = hsd_upstr st" "fa = flow_accum st"
    by (auto simp: track_source_def split: if_splits option.splits sum.splits)
  have sub: "set (sor_z_of g) \<subseteq> set (core_nodes g)" by (simp add: set_sor_z_of)
  note ti = track_loop_inv[OF loop tracker_inv_init sub]
  then have inv: "tracker_inv (core_nodes g) st"
    and all: "set (core_nodes g) \<subseteq> set (alr_counted st)"
    by (simp_all add: set_sor_z_of)
  have "downstream_more (core_nodes g) r
      \<lparr>alr_counted = [], flow_accum = replicate (number_of_nodes g) 0, hsd_upstr = []\<rparr>"
    by (simp add: downstream_more_def)
  from track_loop_more[OF loop tracker_inv_init sub this]
  have more: "downstream_more (core_nodes g) r st" .
  note d = tracker_invD[OF inv]
  from m all have mc: "m \<in> set (alr_counted st)" by blast
  with more have "edge_ok (core_nodes g) r st m" by (simp add: downstream_more_def)
  with e n have nl: "n < length (flow_accum st)" and lt: "flow_accum st ! m < flow_accum st ! n"
    unfolding edge_ok_def by blast+
  from d(5)[OF mc] lt have two: "2 \<le> flow_accum st ! n" by simp
  with d(1)[OF nl] nl st show ?thesis by simp
qed

section \<open>Counting in the aggregator\<close>

lemma set_first_encountered: "set (first_encountered xs) = set xs"
  by (induction xs) auto

lemma distinct_first_encountered: "distinct (first_encountered xs)"
  by (induction xs) (auto simp: distinct_removeAll)

lemma counter_get_incr:
  "counter_get (counter_incr x cnt) k = counter_get cnt k + (if k = x then 1 else 0)"
  by (simp add: counter_get_def counter_incr_def update_conv')

lemma keys_counter_incr:
  "map fst (counter_incr x cnt) = (if x \<in> set (map fst cnt) then map fst cnt else map fst cnt @ [x])"
  by (simp add: counter_incr_def update_keys)

lemma counter_get_fold:
  "counter_get (fold counter_incr xs cnt) k = counter_get cnt k + count_list xs k"
  by (induction xs arbitrary: cnt) (auto simp: counter_get_incr)

lemma keys_fold:
  "map fst (fold counter_incr xs cnt) =
     map fst cnt @ filter (\<lambda>y. y \<notin> set (map fst cnt)) (first_encountered xs)"
proof (induction xs arbitrary: cnt)
  case Nil
  then show ?case by simp
next
  case (Cons x xs)
  have rm: "filter P (removeAll x ys) = filter (\<lambda>y. P y \<and> y \<noteq> x) ys" for P and ys :: "'a list"
    by (induction ys) auto
  show ?case
  proof (cases "x \<in> set (map fst cnt)")
    case True
    then have "filter (\<lambda>y. y \<notin> set (map fst cnt)) (removeAll x (first_encountered xs))
        = filter (\<lambda>y. y \<notin> set (map fst cnt)) (first_encountered xs)"
      unfolding rm by (intro filter_cong) auto
    with True show ?thesis by (simp add: Cons.IH keys_counter_incr)
  next
    case False
    have "filter (\<lambda>y. y \<notin> set (map fst cnt @ [x])) (first_encountered xs)
        = filter (\<lambda>y. y \<notin> set (map fst cnt)) (removeAll x (first_encountered xs))"
      unfolding rm by (intro filter_cong) auto
    with False show ?thesis by (simp add: Cons.IH keys_counter_incr)
  qed
qed

lemma counter_keys: "map fst (fold counter_incr xs []) = first_encountered xs"
  by (simp add: keys_fold)

lemma counter_counts: "counter_get (fold counter_incr xs []) k = count_list xs k"
  using counter_get_fold[of xs "[]" k] by (simp add: counter_get_def)

lemma distinct_counter_keys: "distinct (map fst (fold counter_incr xs []))"
  by (simp add: counter_keys distinct_first_encountered)

lemma lists_keys_insertion_order: "lists_keys insertion_order"
  by (simp add: lists_keys_def insertion_order_def)

lemma lists_keys_ascending_order: "lists_keys ascending_order"
  by (simp add: lists_keys_def ascending_order_def)

lemma lists_keys_rev: "lists_keys (\<lambda>cnt. rev (map fst cnt))"
  by (simp add: lists_keys_def)

lemma counter_listing:
  assumes "lists_keys keys_of"
  shows "distinct (keys_of (fold counter_incr xs []))"
    and "set (keys_of (fold counter_incr xs [])) = set xs"
proof -
  from assms distinct_counter_keys[of xs]
  have "distinct (keys_of (fold counter_incr xs []))
      \<and> set (keys_of (fold counter_incr xs [])) = set (map fst (fold counter_incr xs []))"
    unfolding lists_keys_def by blast
  then show "distinct (keys_of (fold counter_incr xs []))"
    and "set (keys_of (fold counter_incr xs [])) = set xs"
    by (simp_all add: counter_keys set_first_encountered)
qed

lemma sum_counts_listing:
  assumes "distinct ks" and "set ks = set xs"
  shows "sum_list (map (count_list xs) ks) = length xs"
proof -
  have "sum_list (map (count_list xs) ks) = sum (count_list xs) (set xs)"
    using sum_list_distinct_conv_sum_set[OF assms(1), of "count_list xs"] assms(2) by simp
  also have "\<dots> = length xs" by (rule sum_count_set) auto
  finally show ?thesis .
qed

lemma fractions_Inr:
  "denom \<noteq> 0 \<or> buf = [] \<Longrightarrow> fractions buf denom = Inr (map (\<lambda>s. real s / real denom) buf)"
  by (induction buf) auto

lemma sum_list_divide:
  "sum_list (map (\<lambda>k. real (f k) / c) ys) = real (sum_list (map f ys)) / c"
  by (induction ys) (simp_all add: add_divide_distrib)

lemma sum_fractions:
  assumes "xs \<noteq> []" and "distinct ks" and "set ks = set xs"
  shows "sum_list (map (\<lambda>k. real (count_list xs k) / real (length xs)) ks) = 1"
  using assms by (simp add: sum_list_divide sum_counts_listing)

lemma aggregate_loop_Inr:
  assumes "set kes \<subseteq> dom (map_of upstr)" and lk: "lists_keys keys_of"
  shows "\<exists>u' c'. aggregate_loop keys_of upstr kes (u, c) = Inr (u', c')
     \<and> (\<forall>ke. map_of u' ke =
           (if ke \<in> set kes
            then map_option (\<lambda>nums. keys_of (fold counter_incr nums [])) (map_of upstr ke)
            else map_of u ke))
     \<and> (\<forall>ke. map_of c' ke =
           (if ke \<in> set kes
            then map_option (\<lambda>nums. map (\<lambda>k. real (count_list nums k) / real (length nums))
                                        (keys_of (fold counter_incr nums []))) (map_of upstr ke)
            else map_of c ke))"
  using assms(1)
proof (induction kes arbitrary: u c)
  case Nil
  then show ?case by simp
next
  case (Cons ke kes)
  from Cons.prems obtain nums where nums: "map_of upstr ke = Some nums" and sub: "set kes \<subseteq> dom (map_of upstr)"
    by auto
  let ?cnt = "fold counter_incr nums []"
  let ?keys = "keys_of ?cnt"
  let ?e = "map (\<lambda>k. real (count_list nums k) / real (length nums)) ?keys"
  note l = counter_listing[OF lk, of nums]
  have buf: "map (counter_get ?cnt) ?keys = map (count_list nums) ?keys"
    by (simp add: counter_counts)
  have tot: "sum_list (map (count_list nums) ?keys) = length nums"
    using l by (rule sum_counts_listing)
  have "length nums \<noteq> 0 \<or> map (count_list nums) ?keys = []"
    using l(2) by (cases nums) simp_all
  from fractions_Inr[OF this]
  have fr: "fractions (map (count_list nums) ?keys) (length nums) = Inr ?e"
    by (simp add: comp_def)
  have step: "aggregate_loop keys_of upstr (ke # kes) (u, c) =
      aggregate_loop keys_of upstr kes (AList.update ke ?keys u, AList.update ke ?e c)"
    by (simp only: aggregate_loop.simps nums option.case Let_def buf tot fr sum.case)
  from Cons.IH[OF sub, of "AList.update ke ?keys u" "AList.update ke ?e c"]
  obtain u' c' where r: "aggregate_loop keys_of upstr kes (AList.update ke ?keys u, AList.update ke ?e c) = Inr (u', c')"
    and ru: "\<forall>k. map_of u' k =
           (if k \<in> set kes
            then map_option (\<lambda>nums. keys_of (fold counter_incr nums [])) (map_of upstr k)
            else map_of (AList.update ke ?keys u) k)"
    and rc: "\<forall>k. map_of c' k =
           (if k \<in> set kes
            then map_option (\<lambda>nums. map (\<lambda>k. real (count_list nums k) / real (length nums))
                                        (keys_of (fold counter_incr nums []))) (map_of upstr k)
            else map_of (AList.update ke ?e c) k)"
    by blast
  show ?case
  proof (intro exI conjI allI)
    show "aggregate_loop keys_of upstr (ke # kes) (u, c) = Inr (u', c')" using step r by simp
    show "map_of u' k =
           (if k \<in> set (ke # kes)
            then map_option (\<lambda>nums. keys_of (fold counter_incr nums [])) (map_of upstr k)
            else map_of u k)" for k
      using ru nums by (simp add: update_conv')
    show "map_of c' k =
           (if k \<in> set (ke # kes)
            then map_option (\<lambda>nums. map (\<lambda>k. real (count_list nums k) / real (length nums))
                                        (keys_of (fold counter_incr nums []))) (map_of upstr k)
            else map_of c k)" for k
      using rc nums by (simp add: update_conv')
  qed
qed

lemma find_unique_Inr:
  assumes lk: "lists_keys keys_of"
  shows "\<exists>uniq_ids coeff.
       find_unique_upstream_hsd_ids_and_fractions keys_of upstr = Inr (uniq_ids, coeff)
     \<and> (\<forall>ke. map_of uniq_ids ke =
            map_option (\<lambda>nums. keys_of (fold counter_incr nums [])) (map_of upstr ke))
     \<and> (\<forall>ke. map_of coeff ke =
            map_option (\<lambda>nums. map (\<lambda>k. real (count_list nums k) / real (length nums))
                                        (keys_of (fold counter_incr nums []))) (map_of upstr ke))"
proof -
  have sub: "set (map fst upstr) \<subseteq> dom (map_of upstr)" by (simp add: dom_map_of_conv_image_fst)
  have none: "map_of upstr ke = None" if "ke \<notin> set (map fst upstr)" for ke
    using that by (simp add: map_of_eq_None_iff)
  from aggregate_loop_Inr[OF sub lk, of "[]" "[]"] obtain u' c' where
    r: "aggregate_loop keys_of upstr (map fst upstr) ([], []) = Inr (u', c')"
    and ru: "\<forall>ke. map_of u' ke =
           (if ke \<in> set (map fst upstr)
            then map_option (\<lambda>nums. keys_of (fold counter_incr nums [])) (map_of upstr ke)
            else map_of [] ke)"
    and rc: "\<forall>ke. map_of c' ke =
           (if ke \<in> set (map fst upstr)
            then map_option (\<lambda>nums. map (\<lambda>k. real (count_list nums k) / real (length nums))
                                        (keys_of (fold counter_incr nums []))) (map_of upstr ke)
            else map_of [] ke)"
    by blast
  show ?thesis
  proof (intro exI conjI allI)
    show "find_unique_upstream_hsd_ids_and_fractions keys_of upstr = Inr (u', c')"
      using r by (simp add: find_unique_upstream_hsd_ids_and_fractions_def)
    show "map_of u' ke =
            map_option (\<lambda>nums. keys_of (fold counter_incr nums [])) (map_of upstr ke)" for ke
      using ru none[of ke] by (cases "ke \<in> set (map fst upstr)") simp_all
    show "map_of c' ke =
            map_option (\<lambda>nums. map (\<lambda>k. real (count_list nums k) / real (length nums))
                                        (keys_of (fold counter_incr nums []))) (map_of upstr ke)" for ke
      using rc none[of ke] by (cases "ke \<in> set (map fst upstr)") simp_all
  qed
qed

section \<open>The steps of the decoder\<close>

lemma neighbors_cw_Inr:
  assumes len: "length (diagonals_at_node g) = length (neighbors_at_node g)"
  shows "\<exists>rows. neighbors_cw g = Inr rows \<and> length rows = length (neighbors_at_node g)
     \<and> (\<forall>n < length (neighbors_at_node g).
           rows ! n = clockwise_from_east (neighbors_at_node g ! n) (diagonals_at_node g ! n))"
proof -
  let ?rows = "map (\<lambda>n. clockwise_from_east (neighbors_at_node g ! n) (diagonals_at_node g ! n))
      [0..<length (neighbors_at_node g)]"
  have "neighbors_cw g = Inr ?rows"
    using len
    by (simp add: neighbors_cw_def hstack_def hsplit_def fliplr_def clockwise_from_east_def
        split_beta)
  then show ?thesis by simp
qed

lemma floor_log2_less: "n < 2 ^ Suc k \<Longrightarrow> floor_log2 n \<le> k"
proof (induction k arbitrary: n)
  case 0
  then show ?case by (subst floor_log2.simps) simp
next
  case (Suc k)
  show ?case
  proof (cases "n < 2")
    case True
    then show ?thesis by (subst floor_log2.simps) simp
  next
    case False
    from Suc.prems have "n div 2 < 2 ^ Suc k" by simp
    from Suc.IH[OF this] False show ?thesis by (subst floor_log2.simps) simp
  qed
qed

lemma floor_log2_ge: "2 ^ k \<le> n \<Longrightarrow> k \<le> floor_log2 n"
proof (induction k arbitrary: n)
  case 0
  then show ?case by simp
next
  case (Suc k)
  have "(2::nat) \<le> 2 ^ Suc k" by simp
  with Suc.prems have n2: "\<not> n < 2" by linarith
  from Suc.prems have "2 ^ k \<le> n div 2" by simp
  from Suc.IH[OF this] n2 show ?case by (subst floor_log2.simps) simp
qed

lemma floor_log2_power: "floor_log2 (2 ^ k) = k"
  using floor_log2_less[of "2 ^ k" k] floor_log2_ge[of k "2 ^ k"] by simp

lemma fold_assign:
  "\<forall>n \<in> set idx. n < length arr \<Longrightarrow>
     length (fold (\<lambda>(n, v) acc. acc[n := v]) (zip idx (map F idx)) arr) = length arr
     \<and> (\<forall>n < length arr. fold (\<lambda>(n, v) acc. acc[n := v]) (zip idx (map F idx)) arr ! n =
            (if n \<in> set idx then F n else arr ! n))"
proof (induction idx arbitrary: arr rule: rev_induct)
  case Nil
  then show ?case by simp
next
  case (snoc x idx)
  then show ?case by (auto simp: nth_list_update)
qed

lemma take_at_Inr:
  "\<forall>n \<in> set idx. n < length arr \<Longrightarrow> take_at arr idx = Inr (map (\<lambda>n. arr ! n) idx)"
  by (simp add: take_at_def list_all_iff)

lemma transpose_rows:
  assumes "rows \<noteq> []" and "\<forall>row \<in> set rows. length row = w"
  shows "length (transpose rows) = w"
    and "\<And>k i. k < w \<Longrightarrow> i < length rows \<Longrightarrow> transpose rows ! k ! i = rows ! i ! k"
proof -
  have rect: "transpose rows = map (\<lambda>i. map (\<lambda>j. rows ! j ! i) [0..<length rows]) [0..<w]"
    by (rule transpose_rectangle) (use assms in auto)
  show "length (transpose rows) = w" by (simp add: rect)
  show "transpose rows ! k ! i = rows ! i ! k" if "k < w" "i < length rows" for k i
    using that by (simp add: rect)
qed

lemma map_upt_nth: "map (\<lambda>i. F (xs ! i)) [0..<length xs] = map F xs"
  by (rule nth_equalityI) simp_all

lemma np_choose_rows:
  assumes w: "\<forall>row \<in> set rows. length row = w"
    and len: "length a = length rows"
    and rng: "\<forall>k \<in> set a. 0 \<le> k \<and> k < int w"
  shows "np_choose a (transpose rows) = Inr (map (\<lambda>i. rows ! i ! nat (a ! i)) [0..<length a])"
proof (cases "rows = []")
  case True
  with len show ?thesis by (simp add: np_choose_def)
next
  case False
  note t = transpose_rows[OF False w]
  have ok: "list_all (\<lambda>k. 0 \<le> k \<and> k < int (length (transpose rows))) a"
    using rng t(1) by (simp add: list_all_iff)
  have "map (\<lambda>i. transpose rows ! nat (a ! i) ! i) [0..<length a]
      = map (\<lambda>i. rows ! i ! nat (a ! i)) [0..<length a]"
  proof (rule map_cong[OF refl])
    fix i assume "i \<in> set [0..<length a]"
    then have i: "i < length a" by simp
    then have "a ! i \<in> set a" by simp
    with rng have "nat (a ! i) < w" by auto
    from t(2)[OF this] i len show "transpose rows ! nat (a ! i) ! i = rows ! i ! nat (a ! i)" by simp
  qed
  with ok show ?thesis by (simp add: np_choose_def)
qed

lemma np_choose_out_of_range:
  assumes w: "\<forall>row \<in> set rows. length row = w" and ne: "rows \<noteq> []"
    and bad: "\<exists>k \<in> set a. k < 0 \<or> int w \<le> k"
  shows "np_choose a (transpose rows) = (Inl ValueError :: error + 'a list)"
proof -
  note t = transpose_rows[OF ne w]
  from bad obtain k where k: "k \<in> set a" "k < 0 \<or> int w \<le> k" by blast
  then have "\<not> (0 \<le> k \<and> k < int (length (transpose rows)))" using t(1) by auto
  with k(1) have "\<not> (\<forall>k \<in> set a. 0 \<le> k \<and> k < int (length (transpose rows)))" by blast
  then have "\<not> list_all (\<lambda>k. 0 \<le> k \<and> k < int (length (transpose rows))) a"
    by (simp only: list_all_iff not_False_eq_True)
  then show ?thesis by (simp add: np_choose_def)
qed

lemma put_at_Inr:
  assumes "\<forall>n \<in> set idx. n < length arr"
  shows "\<exists>r. put_at arr idx (map F idx) = Inr r \<and> length r = length arr
     \<and> (\<forall>n < length arr. r ! n = (if n \<in> set idx then F n else arr ! n))"
  using fold_assign[OF assms, of F] assms by (simp add: put_at_def list_all_iff)

lemma length_clockwise_from_east: "length (clockwise_from_east orth diag) = 8"
  by (simp add: clockwise_from_east_def split_beta)

lemma log2_astype_int_pos: "1 \<le> c \<Longrightarrow> log2_astype_int c = int (floor_log2 (nat c))"
  by (simp add: log2_astype_int_def)

lemma log2_astype_int_range:
  assumes "1 \<le> c" and "c \<le> 255"
  shows "0 \<le> log2_astype_int c \<and> log2_astype_int c < 8"
proof -
  have "nat c < 2 ^ Suc 7" using assms by simp
  from floor_log2_less[OF this] assms show ?thesis by (simp add: log2_astype_int_def)
qed

lemma log2_astype_int_bad:
  assumes "c \<le> 0 \<or> 256 \<le> c"
  shows "log2_astype_int c < 0 \<or> 8 \<le> log2_astype_int c"
proof (cases "c \<le> 0")
  case True
  then show ?thesis by (simp add: log2_astype_int_def)
next
  case False
  with assms have "2 ^ 8 \<le> nat c" by simp
  from floor_log2_ge[OF this] False show ?thesis by (simp add: log2_astype_int_def)
qed

text \<open>The steps of the decoder up to \<open>np.choose\<close>.\<close>

lemma decoder_unfold:
  assumes len: "length (diagonals_at_node g) = length (neighbors_at_node g)"
    and core: "\<forall>c \<in> set (core_nodes g). c < length (neighbors_at_node g) \<and> c < length flow_dir_arc"
  shows "convert_arc_flow_directions_to_landlab_node_ids g flow_dir_arc =
    (case np_choose (map (\<lambda>n. log2_astype_int (flow_dir_arc ! n)) (core_nodes g))
            (transpose (map (\<lambda>n. clockwise_from_east (neighbors_at_node g ! n) (diagonals_at_node g ! n))
                          (core_nodes g))) of
       Inl e \<Rightarrow> Inl e
     | Inr vals \<Rightarrow> put_at (replicate (number_of_nodes g) 0) (core_nodes g) vals)"
proof -
  from neighbors_cw_Inr[OF len] obtain rows where rows: "neighbors_cw g = Inr rows"
    and rl: "length rows = length (neighbors_at_node g)"
    and rn: "\<forall>n < length (neighbors_at_node g).
           rows ! n = clockwise_from_east (neighbors_at_node g ! n) (diagonals_at_node g ! n)"
    by blast
  have t1: "take_at (map log2_astype_int flow_dir_arc) (core_nodes g)
      = Inr (map (\<lambda>n. log2_astype_int (flow_dir_arc ! n)) (core_nodes g))"
    using core by (simp add: take_at_def list_all_iff)
  have t2: "take_at rows (core_nodes g)
      = Inr (map (\<lambda>n. clockwise_from_east (neighbors_at_node g ! n) (diagonals_at_node g ! n))
                          (core_nodes g))"
    using core rl rn by (simp add: take_at_def list_all_iff)
  show ?thesis
    by (simp add: convert_arc_flow_directions_to_landlab_node_ids_def rows t1 t2)
qed

lemma decoder_Inr:
  assumes len: "length (diagonals_at_node g) = length (neighbors_at_node g)"
    and core: "\<forall>c \<in> set (core_nodes g).
        c < length (neighbors_at_node g) \<and> c < length flow_dir_arc \<and> c < number_of_nodes g"
    and codes: "\<forall>c \<in> set (core_nodes g). 1 \<le> flow_dir_arc ! c \<and> flow_dir_arc ! c \<le> 255"
  shows "\<exists>r. convert_arc_flow_directions_to_landlab_node_ids g flow_dir_arc = Inr r
     \<and> length r = number_of_nodes g
     \<and> (\<forall>n \<in> set (core_nodes g).
           r ! n = clockwise_from_east (neighbors_at_node g ! n) (diagonals_at_node g ! n)
                     ! floor_log2 (nat (flow_dir_arc ! n)))
     \<and> (\<forall>n < number_of_nodes g. n \<notin> set (core_nodes g) \<longrightarrow> r ! n = 0)"
proof -
  let ?idx = "map (\<lambda>n. log2_astype_int (flow_dir_arc ! n)) (core_nodes g)"
  let ?rows = "map (\<lambda>n. clockwise_from_east (neighbors_at_node g ! n) (diagonals_at_node g ! n))
                          (core_nodes g)"
  let ?F = "\<lambda>n. clockwise_from_east (neighbors_at_node g ! n) (diagonals_at_node g ! n)
                     ! floor_log2 (nat (flow_dir_arc ! n))"
  have w: "\<forall>row \<in> set ?rows. length row = 8" by (auto simp: length_clockwise_from_east)
  have rng: "\<forall>k \<in> set ?idx. 0 \<le> k \<and> k < int 8"
    using codes log2_astype_int_range by auto
  have "np_choose ?idx (transpose ?rows) = Inr (map (\<lambda>i. ?rows ! i ! nat (?idx ! i)) [0..<length ?idx])"
    by (rule np_choose_rows[OF w _ rng]) simp
  also have "map (\<lambda>i. ?rows ! i ! nat (?idx ! i)) [0..<length ?idx]
      = map (\<lambda>i. ?F (core_nodes g ! i)) [0..<length (core_nodes g)]"
    using codes by (auto simp: log2_astype_int_pos)
  also have "\<dots> = map ?F (core_nodes g)" by (rule map_upt_nth)
  finally have ch: "np_choose ?idx (transpose ?rows) = Inr (map ?F (core_nodes g))" .
  have "\<forall>n \<in> set (core_nodes g). n < length (replicate (number_of_nodes g) (0::int))"
    using core by simp
  from put_at_Inr[OF this, of ?F] obtain r where
    r: "put_at (replicate (number_of_nodes g) 0) (core_nodes g) (map ?F (core_nodes g)) = Inr r"
    and rl: "length r = number_of_nodes g"
    and rn: "\<forall>n < number_of_nodes g. r ! n = (if n \<in> set (core_nodes g) then ?F n else 0)"
    by auto
  have "convert_arc_flow_directions_to_landlab_node_ids g flow_dir_arc = Inr r"
    using decoder_unfold[OF len, of flow_dir_arc] core ch r by simp
  moreover have "\<forall>n \<in> set (core_nodes g). r ! n = ?F n" using rn core by auto
  moreover have "\<forall>n < number_of_nodes g. n \<notin> set (core_nodes g) \<longrightarrow> r ! n = 0" using rn by auto
  ultimately show ?thesis using rl by blast
qed

lemma decoder_ValueError:
  assumes len: "length (diagonals_at_node g) = length (neighbors_at_node g)"
    and core: "\<forall>c \<in> set (core_nodes g).
        c < length (neighbors_at_node g) \<and> c < length flow_dir_arc"
    and bad: "\<exists>c \<in> set (core_nodes g). flow_dir_arc ! c \<le> 0 \<or> 256 \<le> flow_dir_arc ! c"
  shows "convert_arc_flow_directions_to_landlab_node_ids g flow_dir_arc = Inl ValueError"
proof -
  let ?idx = "map (\<lambda>n. log2_astype_int (flow_dir_arc ! n)) (core_nodes g)"
  let ?rows = "map (\<lambda>n. clockwise_from_east (neighbors_at_node g ! n) (diagonals_at_node g ! n))
                          (core_nodes g)"
  have w: "\<forall>row \<in> set ?rows. length row = 8" by (auto simp: length_clockwise_from_east)
  from bad have ne: "?rows \<noteq> []" by auto
  have "\<exists>k \<in> set ?idx. k < 0 \<or> int 8 \<le> k"
    using bad log2_astype_int_bad by auto
  from np_choose_out_of_range[OF w ne this]
  show ?thesis using decoder_unfold[OF len core] by simp
qed

section \<open>The frame of the calls\<close>

lemma keeps_refl: "keeps n h h"
  by (simp add: keeps_def)

lemma keeps_trans: "keeps n h h1 \<Longrightarrow> keeps n h1 h2 \<Longrightarrow> keeps n h h2"
  by (simp add: keeps_def)

lemma safe_refl: "safe n rf h h"
  by (simp add: safe_def keeps_refl)

lemma safe_trans: "safe n rf h h1 \<Longrightarrow> safe n rf h1 h2 \<Longrightarrow> safe n rf h h2"
  unfolding safe_def using keeps_trans by blast

lemma dict_at_update:
  "dict_at (h[p := ob]) q =
     (if p = q \<and> p < length h then (case ob of Dict d \<Rightarrow> d | _ \<Rightarrow> []) else dict_at h q)"
  by (auto simp: dict_at_def obj_at_def split: obj.splits)

lemma dict_at_append: "q < length h \<Longrightarrow> dict_at (h @ [ob]) q = dict_at h q"
  by (simp add: dict_at_def obj_at_def nth_append)

lemma safe_alloc: "safe n rf h (h @ [ob])"
  by (auto simp: safe_def fresh_refs_def keeps_def dict_at_append)

lemma safe_update_plain:
  assumes "n \<le> p" and "\<And>d. ob \<noteq> Dict d"
  shows "safe n rf h (h[p := ob])"
proof -
  have "dict_at (h[p := ob]) q = dict_at h q \<or> dict_at (h[p := ob]) q = []" for q
    using assms(2) by (cases ob) (auto simp: dict_at_update)
  then have "set (dict_at (h[p := ob]) q) \<subseteq> set (dict_at h q)" for q
    by (metis empty_set empty_subsetI subset_refl)
  then have "\<forall>x \<in> set (dict_at (h[p := ob]) (hs_ref rf)). n \<le> snd x"
    if "\<forall>x \<in> set (dict_at h (hs_ref rf)). n \<le> snd x"
    using that by blast
  then show ?thesis
    using assms(1) by (simp add: safe_def fresh_refs_def keeps_def)
qed

lemma in_set_update:
  "x \<in> set (AList.update k v al) \<Longrightarrow> x = (k, v) \<or> x \<in> set al"
  by (induction al) (auto split: if_splits)

lemma safe_update_dict:
  assumes "n \<le> c"
  shows "safe n rf h (h[hs_ref rf := Dict (AList.update j c (dict_at h (hs_ref rf)))])"
proof -
  have "\<forall>x \<in> set (AList.update j c (dict_at h (hs_ref rf))). n \<le> snd x"
    if "\<forall>x \<in> set (dict_at h (hs_ref rf)). n \<le> snd x"
    using that assms in_set_update by fastforce
  then show ?thesis
    using assms by (simp add: safe_def fresh_refs_def keeps_def dict_at_update)
qed

lemma fresh_entry:
  assumes "fresh_refs n rf h" and "map_of (dict_at h (hs_ref rf)) j = Some e"
  shows "n \<le> e"
proof -
  from assms(2) have "(j, e) \<in> set (dict_at h (hs_ref rf))" by (rule map_of_SomeD)
  with assms(1) show ?thesis by (force simp: fresh_refs_def)
qed

lemma fresh_length: "fresh_refs n rf h \<Longrightarrow> n \<le> length h"
  by (simp add: fresh_refs_def)

lemma safe_step:
  assumes "fresh_refs n rf h" and "safe n rf h h1"
  shows "fresh_refs n rf h1" and "keeps n h h1"
  using assms by (simp_all add: safe_def)

lemma count_node_h_safe:
  assumes buf: "n \<le> buf_ref" and run: "count_node_h rf buf_ref j a h = (res, h')"
  shows "safe n rf h h'"
proof (cases "fresh_refs n rf h")
  case False
  then show ?thesis by (simp add: safe_def)
next
  case fr: True
  then have alr: "n \<le> alr_ref rf" by (simp add: fresh_refs_def)
  let ?h1 = "h[alr_ref rf := Nodes (nodes_at h (alr_ref rf) @ [j])]"
  have s1: "safe n rf h ?h1" by (rule safe_update_plain[OF alr]) simp
  have s2: "safe n rf ?h1 (?h1[buf_ref := Buffer xs])" for xs
    by (rule safe_update_plain[OF buf]) simp
  from run have "h' = h \<or> h' = ?h1 \<or> (\<exists>xs. h' = ?h1[buf_ref := Buffer xs])"
    by (auto simp: count_node_h_def Let_def split: if_splits option.splits)
  then show ?thesis using safe_refl s1 safe_trans[OF s1 s2] by blast
qed

lemma store_buffer_h_safe: "safe n rf h (store_buffer_h rf buf_ref j h)"
proof (cases "fresh_refs n rf h")
  case False
  then show ?thesis by (simp add: safe_def)
next
  case fr: True
  let ?h1 = "h @ [Buffer (buffer_at h buf_ref)]"
  have s1: "safe n rf h ?h1" by (rule safe_alloc)
  note f1 = safe_step[OF fr s1]
  show ?thesis
  proof (cases "map_of (dict_at h (hs_ref rf)) j")
    case None
    let ?h2 = "?h1 @ [Dict [(j, length h)]]"
    have s2: "safe n rf ?h1 ?h2" by (rule safe_alloc)
    have "n \<le> length h" using fr by (rule fresh_length)
    then have s3: "safe n rf ?h2 (?h2[hs_ref rf := Dict (AList.update j (length h) (dict_at ?h2 (hs_ref rf)))])"
      by (rule safe_update_dict)
    have "store_buffer_h rf buf_ref j h
        = ?h2[hs_ref rf := Dict (AList.update j (length h) (dict_at ?h2 (hs_ref rf)))]"
      using None by (simp add: store_buffer_h_def alloc_def)
    then show ?thesis using safe_trans[OF safe_trans[OF s1 s2] s3] by simp
  next
    case (Some e)
    have "n \<le> e" using fresh_entry[OF fr Some] .
    then have s2: "safe n rf ?h1 (?h1[e := Buffer xs])" for xs
      by (rule safe_update_plain) simp
    have "store_buffer_h rf buf_ref j h
        = ?h1[e := Buffer (buffer_at ?h1 e @ buffer_at ?h1 (length h))]"
      using Some by (simp add: store_buffer_h_def alloc_def)
    then show ?thesis using safe_trans[OF s1 s2] by simp
  qed
qed

lemma visit_node_h_safe:
  assumes buf: "n \<le> buf_ref" and run: "visit_node_h rf buf_ref j a h = (res, h')"
  shows "safe n rf h h'"
proof (cases "j < length (nodes_at h (fa_ref rf))")
  case False
  with run show ?thesis by (simp add: visit_node_h_def safe_refl)
next
  case True
  obtain res1 h1 where c: "count_node_h rf buf_ref j a h = (res1, h1)" by force
  note s1 = count_node_h_safe[OF buf c]
  show ?thesis
  proof (cases res1)
    case (Inl e)
    with run True c have "h' = h1" by (simp add: visit_node_h_def)
    with s1 show ?thesis by simp
  next
    case (Inr a')
    let ?h2 = "h1[fa_ref rf := Nodes ((nodes_at h1 (fa_ref rf))[j := nodes_at h1 (fa_ref rf) ! j + a'])]"
    from run True c Inr have h': "h' = store_buffer_h rf buf_ref j ?h2"
      by (simp add: visit_node_h_def Let_def)
    show ?thesis
    proof (cases "fresh_refs n rf h")
      case False
      then show ?thesis by (simp add: safe_def)
    next
      case fr: True
      then have "n \<le> fa_ref rf" by (simp add: fresh_refs_def)
      then have s2: "safe n rf h1 ?h2" by (rule safe_update_plain) simp
      have s3: "safe n rf ?h2 h'" unfolding h' by (rule store_buffer_h_safe)
      from safe_trans[OF safe_trans[OF s1 s2] s3] show ?thesis .
    qed
  qed
qed

lemma segment_step_h_safe:
  assumes buf: "n \<le> buf_ref" and run: "segment_step_h rf buf_ref j sw a h = (res, h')"
  shows "safe n rf h h'"
proof -
  from run have "h' = h \<or> (\<exists>j' r. visit_node_h rf buf_ref j' a h = (r, h'))"
    by (auto simp: segment_step_h_def split: option.splits if_splits prod.splits sum.splits)
  then show ?thesis using safe_refl visit_node_h_safe[OF buf] by blast
qed

lemma segment_loop_h_induct [consumes 1, case_names Raise Break Continue]:
  assumes run: "segment_loop_h rf buf_ref j sw a h = Some y"
    and raise: "\<And>j sw a h e h'. segment_step_h rf buf_ref j sw a h = (RaiseH e, h') \<Longrightarrow> P j sw a h (Some e, h')"
    and break: "\<And>j sw a h h'. segment_step_h rf buf_ref j sw a h = (BreakH, h') \<Longrightarrow> P j sw a h (None, h')"
    and continue: "\<And>j sw a h j' a' h' y.
        segment_step_h rf buf_ref j sw a h = (ContinueH j' a', h') \<Longrightarrow>
        P j' False a' h' y \<Longrightarrow> P j sw a h y"
  shows "P j sw a h y"
proof -
  have "rf = rf \<longrightarrow> buf_ref = buf_ref \<longrightarrow> P j sw a h y"
  proof (rule segment_loop_h.raw_induct
      [where P = "\<lambda>rf' buf' j sw a h y. rf' = rf \<longrightarrow> buf' = buf_ref \<longrightarrow> P j sw a h y", OF _ run])
    fix loop :: "refs \<Rightarrow> nat \<Rightarrow> nat \<Rightarrow> bool \<Rightarrow> nat \<Rightarrow> 'a heap \<Rightarrow> (error option \<times> 'a heap) option"
    fix rf' buf' j sw a h y
    assume ih: "\<And>rf' buf' j sw a h y. loop rf' buf' j sw a h = Some y \<Longrightarrow>
        rf' = rf \<longrightarrow> buf' = buf_ref \<longrightarrow> P j sw a h y"
    assume body: "(case segment_step_h rf' buf' j sw a h of
        (BreakH, h') \<Rightarrow> Some (None, h')
      | (ContinueH j' a', h') \<Rightarrow> loop rf' buf' j' False a' h'
      | (RaiseH e, h') \<Rightarrow> Some (Some e, h')) = Some y"
    show "rf' = rf \<longrightarrow> buf' = buf_ref \<longrightarrow> P j sw a h y"
    proof (intro impI)
      assume eqs: "rf' = rf" "buf' = buf_ref"
      obtain oc h' where st: "segment_step_h rf buf_ref j sw a h = (oc, h')" by force
      show "P j sw a h y"
      proof (cases oc)
        case BreakH
        with body eqs st have "y = (None, h')" by simp
        with BreakH st break show ?thesis by simp
      next
        case (ContinueH j' a')
        with body eqs st have "loop rf buf_ref j' False a' h' = Some y" by simp
        from ih[OF this] have "P j' False a' h' y" by simp
        with ContinueH st continue show ?thesis by blast
      next
        case (RaiseH e)
        with body eqs st have "y = (Some e, h')" by simp
        with RaiseH st raise show ?thesis by simp
      qed
    qed
  qed
  then show ?thesis by simp
qed

lemma segment_loop_h_safe:
  assumes buf: "n \<le> buf_ref" and run: "segment_loop_h rf buf_ref j sw a h = Some (res, h')"
  shows "safe n rf h h'"
proof -
  have "safe n rf h (snd y)" if "segment_loop_h rf buf_ref j sw a h = Some y" for y
    using that
  proof (induction rule: segment_loop_h_induct)
    case (Raise j sw a h e h')
    then show ?case using segment_step_h_safe[OF buf] by simp
  next
    case (Break j sw a h h')
    then show ?case using segment_step_h_safe[OF buf] by simp
  next
    case (Continue j sw a h j' a' h' y)
    from segment_step_h_safe[OF buf Continue(1)] Continue(2) show ?case by (rule safe_trans)
  qed
  from this[OF run] show ?thesis by simp
qed

lemma visit_sink_h_safe:
  assumes run: "visit_sink_h rf i h = (res, h')"
  shows "safe n rf h h'"
proof (cases "fresh_refs n rf h")
  case False
  then show ?thesis by (simp add: safe_def)
next
  case fr: True
  show ?thesis
  proof (cases "sources_at h (hsd_ref rf) i")
    case None
    with run show ?thesis by (simp add: visit_sink_h_def safe_refl)
  next
    case (Some x)
    let ?h1 = "h @ [Buffer [x]]"
    let ?h2 = "?h1 @ [Dict [(i, length h)]]"
    let ?h3 = "?h2[hs_ref rf := Dict (AList.update i (length h) (dict_at ?h2 (hs_ref rf)))]"
    let ?fa = "nodes_at ?h3 (fa_ref rf)"
    let ?h4 = "?h3[fa_ref rf := Nodes (?fa[i := ?fa ! i + 1])]"
    let ?h5 = "?h4[alr_ref rf := Nodes (nodes_at ?h4 (alr_ref rf) @ [i])]"
    from fr have n: "n \<le> length h" "n \<le> fa_ref rf" "n \<le> alr_ref rf" by (simp_all add: fresh_refs_def)
    have s1: "safe n rf h ?h1" by (rule safe_alloc)
    have s2: "safe n rf ?h1 ?h2" by (rule safe_alloc)
    have s3: "safe n rf ?h2 ?h3" using n(1) by (rule safe_update_dict)
    have s4: "safe n rf ?h3 ?h4" using n(2) by (rule safe_update_plain) simp
    have s5: "safe n rf ?h4 ?h5" using n(3) by (rule safe_update_plain) simp
    note t3 = safe_trans[OF safe_trans[OF s1 s2] s3]
    note t5 = safe_trans[OF safe_trans[OF t3 s4] s5]
    from run Some have "h' = ?h3 \<or> h' = ?h5"
      by (auto simp: visit_sink_h_def alloc_def Let_def split: if_splits)
    with t3 t5 show ?thesis by blast
  qed
qed

lemma track_loop_h_safe:
  "track_loop_h rf sor_z h = Some (res, h') \<Longrightarrow> safe n rf h h'"
proof (induction sor_z arbitrary: h)
  case Nil
  then show ?case by (simp add: safe_refl)
next
  case (Cons i sor_z)
  show ?case
  proof (cases "fresh_refs n rf h")
    case False
    then show ?thesis by (simp add: safe_def)
  next
    case fr: True
    show ?thesis
    proof (cases "i \<in> set (nodes_at h (alr_ref rf))")
      case True
      with Cons show ?thesis by simp
    next
      case False
      show ?thesis
      proof (cases "receivers_at h (r_ref rf) i")
        case None
        with Cons.prems False show ?thesis by (simp add: safe_refl)
      next
        case (Some ri)
        show ?thesis
        proof (cases "ri = i")
          case True
          obtain e h1 where v: "visit_sink_h rf i h = (e, h1)" by force
          note s1 = visit_sink_h_safe[OF v, of n]
          show ?thesis
          proof (cases e)
            case None
            with Cons.prems False Some True v have "track_loop_h rf sor_z h1 = Some (res, h')" by simp
            from safe_trans[OF s1 Cons.IH[OF this]] show ?thesis .
          next
            case (Some err)
            with Cons.prems False \<open>receivers_at h (r_ref rf) i = Some ri\<close> True v have "h' = h1" by simp
            with s1 show ?thesis by simp
          qed
        next
          case neq: False
          let ?h1 = "h @ [Buffer []]"
          have s1: "safe n rf h ?h1" by (rule safe_alloc)
          have nb: "n \<le> length h" using fr by (rule fresh_length)
          from Cons.prems False Some neq obtain y where
            l: "segment_loop_h rf (length h) i True 0 ?h1 = Some y"
            by (auto simp: alloc_def split: option.splits)
          obtain e h2 where y: "y = (e, h2)" by force
          note s2 = segment_loop_h_safe[OF nb l[unfolded y]]
          show ?thesis
          proof (cases e)
            case None
            with Cons.prems False Some neq l y have "track_loop_h rf sor_z h2 = Some (res, h')"
              by (simp add: alloc_def)
            from safe_trans[OF safe_trans[OF s1 s2] Cons.IH[OF this]] show ?thesis .
          next
            case (Some err)
            with Cons.prems False \<open>receivers_at h (r_ref rf) i = Some ri\<close> neq l y have "h' = h2"
              by (simp add: alloc_def)
            with safe_trans[OF s1 s2] show ?thesis by simp
          qed
        qed
      qed
    qed
  qed
qed

lemma allocate_state_h_fresh:
  assumes "allocate_state_h gr r_at hsd_at h = (rf, sz_ref, h1)"
  shows "fresh_refs (length h) rf h1" and "keeps (length h) h h1"
proof -
  from assms have rf: "alr_ref rf = length h + 3" "fa_ref rf = length h + 4" "hs_ref rf = length h + 5"
    and len: "length h1 = length h + 6" and tk: "take (length h) h1 = h"
    and d: "h1 ! (length h + 5) = Dict []"
    by (auto simp: allocate_state_h_def alloc_def Let_def nth_append)
  from len d have "dict_at h1 (length h + 5) = []" by (simp add: dict_at_def obj_at_def)
  with rf len show "fresh_refs (length h) rf h1" by (simp add: fresh_refs_def)
  from len tk show "keeps (length h) h h1" by (simp add: keeps_def)
qed

lemma track_source_h_keeps:
  assumes "track_source_h gr r_at hsd_at h = Some (res, h')"
  shows "keeps (length h) h h'"
proof (cases "list_all (\<lambda>n. n < length (elevations_at h (elevation_ref gr))) (nodes_at h (core_nodes_ref gr))")
  case False
  with assms show ?thesis by (simp add: track_source_h_def keeps_refl)
next
  case True
  obtain rf sz_ref h1 where a: "allocate_state_h gr r_at hsd_at h = (rf, sz_ref, h1)"
    by (metis prod_cases3)
  note f = allocate_state_h_fresh[OF a]
  from assms True a obtain e where "track_loop_h rf (nodes_at h1 sz_ref) h1 = Some (e, h')"
    by (auto simp: track_source_h_def split: option.splits)
  from track_loop_h_safe[OF this, of "length h"] f(1) have "keeps (length h) h1 h'"
    by (simp add: safe_def)
  with f(2) show ?thesis by (rule keeps_trans)
qed

lemma convert_h_keeps:
  "keeps (length h) h (snd (convert_arc_flow_directions_to_landlab_node_ids_h gr fd_ref h))"
  by (simp add: convert_arc_flow_directions_to_landlab_node_ids_h_def alloc_def Let_def keeps_def
      split: sum.splits)

section \<open>Evaluation of the worked scenario\<close>

lemma scenario_sor_z: "sor_z_of scenario_grid = [1, 2, 3, 4]"
  by (simp add: sor_z_of_def scenario_grid_def argsort_def upt_rec)

lemma scenario_track_source:
  "track_source scenario_grid scenario_r scenario_hsd = Some (Inr (scenario_upstr, [0, 1, 1, 3, 4]))"
  unfolding track_source_def scenario_sor_z
  by (simp add: scenario_grid_def scenario_r_def scenario_hsd_def scenario_upstr_def
      segment_loop.simps segment_step_def visit_node_def visit_sink_def eval_nat_numeral)

lemma scenario_aggregate:
  "find_unique_upstream_hsd_ids_and_fractions insertion_order scenario_upstr =
     Inr ([(1, [''A'']), (3, [''A'', ''C'', ''B'']), (4, [''A'', ''C'', ''D'', ''B'']), (2, [''B''])],
          [(1, [1]), (3, [1 / 3, 1 / 3, 1 / 3]), (4, [1 / 4, 1 / 4, 1 / 4, 1 / 4]), (2, [1])])"
  by (simp add: find_unique_upstream_hsd_ids_and_fractions_def scenario_upstr_def
      insertion_order_def counter_incr_def counter_get_def)

lemma scenario_aggregate_rev:
  "find_unique_upstream_hsd_ids_and_fractions (\<lambda>cnt. rev (map fst cnt)) scenario_upstr =
     Inr ([(1, [''A'']), (3, [''B'', ''C'', ''A'']), (4, [''B'', ''D'', ''C'', ''A'']), (2, [''B''])],
          [(1, [1]), (3, [1 / 3, 1 / 3, 1 / 3]), (4, [1 / 4, 1 / 4, 1 / 4, 1 / 4]), (2, [1])])"
  by (simp add: find_unique_upstream_hsd_ids_and_fractions_def scenario_upstr_def
      counter_incr_def counter_get_def Let_def)

lemma equal_fractions:
  assumes "distinct ids" and "set ids = set nums" and "distinct nums"
  shows "map (\<lambda>k. real (count_list nums k) / real (length nums)) ids
       = replicate (length nums) (1 / real (length nums))"
proof -
  have one: "count_list nums k = 1" if "k \<in> set nums" for k
    using that assms(3) by (induction nums) auto
  have len: "length ids = length nums"
    using assms by (metis distinct_card)
  have "map (\<lambda>k. real (count_list nums k) / real (length nums)) ids
      = map (\<lambda>k. 1 / real (length nums)) ids"
    using one assms(2) by (intro map_cong) auto
  also have "\<dots> = replicate (length ids) (1 / real (length nums))"
    by (simp add: map_replicate_const)
  finally show ?thesis using len by simp
qed

lemma scenario_well_formed: "well_formed scenario_grid scenario_r scenario_hsd"
  by (simp add: well_formed_def scenario_grid_def scenario_r_def scenario_hsd_def)

lemma scenario_acyclic: "acyclic_flow scenario_grid scenario_r"
proof -
  have "drains [1, 2, 3, 4] scenario_r (Suc (Suc (Suc 0))) n" if "n \<in> set [1, 2, 3, 4]" for n
    using that by (auto simp: scenario_r_def)
  then show ?thesis
    unfolding acyclic_flow_def scenario_grid_def by (simp del: drains.simps) blast
qed

section \<open>Evaluation of the mesh with outflow\<close>

lemma outflow_sor_z: "sor_z_of outflow_grid = [1, 2, 3]"
  by (simp add: sor_z_of_def outflow_grid_def argsort_def upt_rec)

lemma outflow_track_source:
  "track_source outflow_grid outflow_r outflow_hsd =
     Some (Inr ([(1, [''A'']), (2, [''A'', ''B'']), (3, [''C''])], [0, 1, 2, 1]))"
  unfolding track_source_def outflow_sor_z
  by (simp add: outflow_grid_def outflow_r_def outflow_hsd_def
      segment_loop.simps segment_step_def visit_node_def visit_sink_def eval_nat_numeral)

lemma outflow_well_formed: "well_formed outflow_grid outflow_r outflow_hsd"
  by (simp add: well_formed_def outflow_grid_def outflow_r_def outflow_hsd_def)

lemma outflow_acyclic: "acyclic_flow outflow_grid outflow_r"
proof -
  have "drains [1, 2, 3] outflow_r (Suc (Suc 0)) n" if "n \<in> set [1, 2, 3]" for n
    using that by (auto simp: outflow_r_def)
  then show ?thesis
    unfolding acyclic_flow_def outflow_grid_def by (simp del: drains.simps) blast
qed

section \<open>The mutual cycle\<close>

lemma cycle_well_formed: "well_formed cycle_grid cycle_r cycle_hsd"
  by (simp add: well_formed_def cycle_grid_def cycle_r_def cycle_hsd_def)

lemma cycle_never_drains: "\<not> drains [0, 1] cycle_r k 0 \<and> \<not> drains [0, 1] cycle_r k 1"
  by (induction k) (auto simp: cycle_r_def)

lemma cycle_not_acyclic: "\<not> acyclic_flow cycle_grid cycle_r"
  using cycle_never_drains by (auto simp: acyclic_flow_def cycle_grid_def)

lemma cycle_track_source: "track_source cycle_grid cycle_r cycle_hsd = None"
  by (rule track_source_cyclic[OF cycle_well_formed cycle_not_acyclic])

text \<open>
  Claim C1.  On the worked scenario \<open>track_source\<close> returns the dictionary
  \<open>hsd_upstr = {1: [A], 2: [B], 3: [A, C, B], 4: [A, C, D, B]}\<close> (entered in the order 1,
  3, 4, 2) and the array \<open>flow_accum\<close> with the entries 1, 1, 3, 4 at the nodes 1, 2, 3,
  4 (and 0 at node 0).  On that dictionary the aggregation returns at node 4 the identifiers
  A, C, D, B with the fraction 1/4 each, and at node 3 the identifiers A, C, B with the
  fraction 1/3 each: in this order when the keys of a counter are listed in the order of
  entry, and as the same identifiers, each once, with the same fractions, however the
  interpreter lists the keys.
\<close>

theorem worked_scenario:
  "track_source scenario_grid scenario_r scenario_hsd = Some (Inr (scenario_upstr, [0, 1, 1, 3, 4]))
   \<and> map_of scenario_upstr =
       [1 \<mapsto> [''A''], 2 \<mapsto> [''B''], 3 \<mapsto> [''A'', ''C'', ''B''], 4 \<mapsto> [''A'', ''C'', ''D'', ''B'']]
   \<and> (\<exists>uniq_ids coeff.
         find_unique_upstream_hsd_ids_and_fractions insertion_order scenario_upstr
           = Inr (uniq_ids, coeff)
         \<and> map_of uniq_ids 4 = Some [''A'', ''C'', ''D'', ''B'']
         \<and> map_of coeff 4 = Some [1 / 4, 1 / 4, 1 / 4, 1 / 4]
         \<and> map_of uniq_ids 3 = Some [''A'', ''C'', ''B'']
         \<and> map_of coeff 3 = Some [1 / 3, 1 / 3, 1 / 3])
   \<and> (lists_keys keys_of \<longrightarrow>
        (\<exists>uniq_ids coeff ids4 ids3.
           find_unique_upstream_hsd_ids_and_fractions keys_of scenario_upstr
             = Inr (uniq_ids, coeff)
           \<and> map_of uniq_ids 4 = Some ids4 \<and> distinct ids4
           \<and> set ids4 = {''A'', ''C'', ''D'', ''B''}
           \<and> map_of coeff 4 = Some [1 / 4, 1 / 4, 1 / 4, 1 / 4]
           \<and> map_of uniq_ids 3 = Some ids3 \<and> distinct ids3
           \<and> set ids3 = {''A'', ''C'', ''B''}
           \<and> map_of coeff 3 = Some [1 / 3, 1 / 3, 1 / 3]))"
proof (intro conjI impI)
  show "track_source scenario_grid scenario_r scenario_hsd
      = Some (Inr (scenario_upstr, [0, 1, 1, 3, 4]))"
    by (rule scenario_track_source)
  show "map_of scenario_upstr =
       [1 \<mapsto> [''A''], 2 \<mapsto> [''B''], 3 \<mapsto> [''A'', ''C'', ''B''], 4 \<mapsto> [''A'', ''C'', ''D'', ''B'']]"
    by (rule ext) (simp add: scenario_upstr_def)
  show "\<exists>uniq_ids coeff.
         find_unique_upstream_hsd_ids_and_fractions insertion_order scenario_upstr
           = Inr (uniq_ids, coeff)
         \<and> map_of uniq_ids 4 = Some [''A'', ''C'', ''D'', ''B'']
         \<and> map_of coeff 4 = Some [1 / 4, 1 / 4, 1 / 4, 1 / 4]
         \<and> map_of uniq_ids 3 = Some [''A'', ''C'', ''B'']
         \<and> map_of coeff 3 = Some [1 / 3, 1 / 3, 1 / 3]"
    using scenario_aggregate by simp
next
  assume lk: "lists_keys keys_of"
  let ?n4 = "[''A'', ''C'', ''D'', ''B'']" and ?n3 = "[''A'', ''C'', ''B'']"
  from find_unique_Inr[OF lk, of scenario_upstr] obtain uniq_ids coeff where
    r: "find_unique_upstream_hsd_ids_and_fractions keys_of scenario_upstr = Inr (uniq_ids, coeff)"
    and u: "\<forall>ke. map_of uniq_ids ke =
            map_option (\<lambda>nums. keys_of (fold counter_incr nums [])) (map_of scenario_upstr ke)"
    and c: "\<forall>ke. map_of coeff ke =
            map_option (\<lambda>nums. map (\<lambda>k. real (count_list nums k) / real (length nums))
                                        (keys_of (fold counter_incr nums []))) (map_of scenario_upstr ke)"
    by blast
  have m: "map_of scenario_upstr 4 = Some ?n4" "map_of scenario_upstr 3 = Some ?n3"
    by (simp_all add: scenario_upstr_def)
  let ?ids4 = "keys_of (fold counter_incr ?n4 [])" and ?ids3 = "keys_of (fold counter_incr ?n3 [])"
  note l4 = counter_listing[OF lk, of ?n4] and l3 = counter_listing[OF lk, of ?n3]
  have u4: "map_of uniq_ids 4 = Some ?ids4" and u3: "map_of uniq_ids 3 = Some ?ids3"
    using u m by simp_all
  have "map_of coeff 4 = Some (map (\<lambda>k. real (count_list ?n4 k) / real (length ?n4)) ?ids4)"
    using c m by simp
  also have "map (\<lambda>k. real (count_list ?n4 k) / real (length ?n4)) ?ids4
      = replicate (length ?n4) (1 / real (length ?n4))"
    using l4 by (rule equal_fractions) simp
  finally have c4: "map_of coeff 4 = Some [1 / 4, 1 / 4, 1 / 4, 1 / 4]"
    by (simp add: eval_nat_numeral)
  have "map_of coeff 3 = Some (map (\<lambda>k. real (count_list ?n3 k) / real (length ?n3)) ?ids3)"
    using c m by simp
  also have "map (\<lambda>k. real (count_list ?n3 k) / real (length ?n3)) ?ids3
      = replicate (length ?n3) (1 / real (length ?n3))"
    using l3 by (rule equal_fractions) simp
  finally have c3: "map_of coeff 3 = Some [1 / 3, 1 / 3, 1 / 3]"
    by (simp add: eval_nat_numeral)
  have s4: "set ?ids4 = {''A'', ''C'', ''D'', ''B''}" and s3: "set ?ids3 = {''A'', ''C'', ''B''}"
    using l4(2) l3(2) by simp_all
  show "\<exists>uniq_ids coeff ids4 ids3.
           find_unique_upstream_hsd_ids_and_fractions keys_of scenario_upstr
             = Inr (uniq_ids, coeff)
           \<and> map_of uniq_ids 4 = Some ids4 \<and> distinct ids4
           \<and> set ids4 = {''A'', ''C'', ''D'', ''B''}
           \<and> map_of coeff 4 = Some [1 / 4, 1 / 4, 1 / 4, 1 / 4]
           \<and> map_of uniq_ids 3 = Some ids3 \<and> distinct ids3
           \<and> set ids3 = {''A'', ''C'', ''B''}
           \<and> map_of coeff 3 = Some [1 / 3, 1 / 3, 1 / 3]"
    by (intro exI conjI) (rule r u4 l4(1) s4 c4 u3 l3(1) s3 c3)+
qed

theorem worked_scenario_witness:
  "lists_keys (\<lambda>cnt. rev (map fst cnt) :: string list)
   \<and> (\<exists>uniq_ids coeff.
         find_unique_upstream_hsd_ids_and_fractions (\<lambda>cnt. rev (map fst cnt)) scenario_upstr
           = Inr (uniq_ids, coeff)
         \<and> map_of uniq_ids 4 = Some [''B'', ''D'', ''C'', ''A'']
         \<and> set [''B'', ''D'', ''C'', ''A''] = {''A'', ''C'', ''D'', ''B''}
         \<and> map_of coeff 4 = Some [1 / 4, 1 / 4, 1 / 4, 1 / 4]
         \<and> map_of uniq_ids 3 = Some [''B'', ''C'', ''A'']
         \<and> set [''B'', ''C'', ''A''] = {''A'', ''C'', ''B''}
         \<and> map_of coeff 3 = Some [1 / 3, 1 / 3, 1 / 3])"
proof -
  have lk: "lists_keys (\<lambda>cnt. rev (map fst cnt) :: string list)" by (rule lists_keys_rev)
  have "lists_keys (\<lambda>cnt. rev (map fst cnt) :: string list) \<longrightarrow>
        (\<exists>uniq_ids coeff ids4 ids3.
           find_unique_upstream_hsd_ids_and_fractions (\<lambda>cnt. rev (map fst cnt)) scenario_upstr
             = Inr (uniq_ids, coeff)
           \<and> map_of uniq_ids 4 = Some ids4 \<and> distinct ids4
           \<and> set ids4 = {''A'', ''C'', ''D'', ''B''}
           \<and> map_of coeff 4 = Some [1 / 4, 1 / 4, 1 / 4, 1 / 4]
           \<and> map_of uniq_ids 3 = Some ids3 \<and> distinct ids3
           \<and> set ids3 = {''A'', ''C'', ''B''}
           \<and> map_of coeff 3 = Some [1 / 3, 1 / 3, 1 / 3])"
    using worked_scenario[of "\<lambda>cnt. rev (map fst cnt)"] by (elim conjE)
  with lk obtain uniq_ids coeff ids4 ids3 where
    r: "find_unique_upstream_hsd_ids_and_fractions (\<lambda>cnt. rev (map fst cnt)) scenario_upstr
         = Inr (uniq_ids, coeff)"
    and g: "map_of uniq_ids 4 = Some ids4" "set ids4 = {''A'', ''C'', ''D'', ''B''}"
      "map_of coeff 4 = Some [1 / 4, 1 / 4, 1 / 4, 1 / 4]"
      "map_of uniq_ids 3 = Some ids3" "set ids3 = {''A'', ''C'', ''B''}"
      "map_of coeff 3 = Some [1 / 3, 1 / 3, 1 / 3]"
    by (elim impE exE conjE) assumption
  from r have u: "uniq_ids =
      [(1, [''A'']), (3, [''B'', ''C'', ''A'']), (4, [''B'', ''D'', ''C'', ''A'']), (2, [''B''])]"
    unfolding scenario_aggregate_rev by simp
  from g(1) u have i4: "ids4 = [''B'', ''D'', ''C'', ''A'']" by simp
  from g(4) u have i3: "ids3 = [''B'', ''C'', ''A'']" by simp
  show ?thesis
    by (intro exI conjI) (rule lk r g(1)[unfolded i4] g(2)[unfolded i4] g(3)
        g(4)[unfolded i3] g(5)[unfolded i3] g(6))+
qed

section \<open>Properties of \<open>track_source\<close>\<close>

text \<open>
  Claim C2.  On an input on which no lookup can fail and whose receiver map is acyclic,
  \<open>track_source\<close> returns; and whenever it returns, \<open>flow_accum\<close> has one entry for
  every node and \<open>flow_accum[n]\<close> is the length of \<open>hsd_upstr[n]\<close> for every node
  \<open>n\<close>, a node that is no key of \<open>hsd_upstr\<close> having \<open>flow_accum\<close> 0.
\<close>

theorem flow_accum_is_length:
  "(well_formed g r hsd_ids \<and> acyclic_flow g r \<longrightarrow>
      (\<exists>hs fa. track_source g r hsd_ids = Some (Inr (hs, fa))))
   \<and> (track_source g r hsd_ids = Some (Inr (hs, fa)) \<longrightarrow>
        length fa = number_of_nodes g
        \<and> (\<forall>n < number_of_nodes g. fa ! n = length (upstream hs n)))"
proof (intro conjI impI)
  assume "well_formed g r hsd_ids \<and> acyclic_flow g r"
  then show "\<exists>hs fa. track_source g r hsd_ids = Some (Inr (hs, fa))"
    using track_source_terminates by blast
next
  assume run: "track_source g r hsd_ids = Some (Inr (hs, fa))"
  from track_source_inv[OF run] obtain st where st: "hs = hsd_upstr st" "fa = flow_accum st"
    and inv: "tracker_inv (core_nodes g) st" and len: "length (flow_accum st) = number_of_nodes g"
    by blast
  show "length fa = number_of_nodes g" using st len by simp
  show "\<forall>n < number_of_nodes g. fa ! n = length (upstream hs n)"
    using tracker_invD(1)[OF inv] st len by simp
qed

theorem flow_accum_is_length_witness:
  "well_formed scenario_grid scenario_r scenario_hsd \<and> acyclic_flow scenario_grid scenario_r
   \<and> track_source scenario_grid scenario_r scenario_hsd = Some (Inr (scenario_upstr, [0, 1, 1, 3, 4]))
   \<and> length [0, 1, 1, 3, 4 :: nat] = number_of_nodes scenario_grid
   \<and> [0, 1, 1, 3, 4] ! 3 = length (upstream scenario_upstr 3)"
proof -
  have "3 < number_of_nodes scenario_grid" by (simp add: scenario_grid_def)
  then show ?thesis
    using flow_accum_is_length[of scenario_grid scenario_r scenario_hsd scenario_upstr "[0, 1, 1, 3, 4]"]
      scenario_track_source scenario_well_formed scenario_acyclic
    by blast
qed

text \<open>
  Claim C10.  On an input on which no lookup can fail and whose receiver map is acyclic,
  \<open>track_source\<close> returns; and whenever it returns, every core node is a key of
  \<open>hsd_upstr\<close> with a sequence of length at least 1 and has \<open>flow_accum\<close> at least 1,
  while a node that is not a core node is no key of \<open>hsd_upstr\<close> and has
  \<open>flow_accum\<close> 0, also when a receiver chain leaves the core set.
\<close>

theorem core_nodes_accumulate_only:
  "(well_formed g r hsd_ids \<and> acyclic_flow g r \<longrightarrow>
      (\<exists>hs fa. track_source g r hsd_ids = Some (Inr (hs, fa))))
   \<and> (track_source g r hsd_ids = Some (Inr (hs, fa)) \<longrightarrow>
        (\<forall>n \<in> set (core_nodes g).
            (\<exists>xs. map_of hs n = Some xs \<and> 1 \<le> length xs) \<and> n < length fa \<and> 1 \<le> fa ! n)
        \<and> (\<forall>n. n \<notin> set (core_nodes g) \<longrightarrow>
              map_of hs n = None \<and> (n < length fa \<longrightarrow> fa ! n = 0)))"
proof (intro conjI impI ballI allI)
  assume "well_formed g r hsd_ids \<and> acyclic_flow g r"
  then show "\<exists>hs fa. track_source g r hsd_ids = Some (Inr (hs, fa))"
    using track_source_terminates by blast
next
  fix n
  assume run: "track_source g r hsd_ids = Some (Inr (hs, fa))" and n: "n \<in> set (core_nodes g)"
  from track_source_inv[OF run] obtain st where st: "hs = hsd_upstr st" "fa = flow_accum st"
    and inv: "tracker_inv (core_nodes g) st"
    and all: "set (core_nodes g) \<subseteq> set (alr_counted st)"
    by blast
  note d = tracker_invD[OF inv]
  from n all have c: "n \<in> set (alr_counted st)" by blast
  show nl: "n < length fa" using d(4)[OF c] st by simp
  show pos: "1 \<le> fa ! n" using d(5)[OF c] st by simp
  have "fa ! n = length (upstream hs n)" using d(1)[of n] nl st by simp
  with pos have "1 \<le> length (upstream hs n)" by simp
  then show "\<exists>xs. map_of hs n = Some xs \<and> 1 \<le> length xs"
    by (cases "map_of hs n") (simp_all add: upstream_def)
next
  fix n
  assume run: "track_source g r hsd_ids = Some (Inr (hs, fa))" and n: "n \<notin> set (core_nodes g)"
  from track_source_inv[OF run] obtain st where st: "hs = hsd_upstr st" "fa = flow_accum st"
    and inv: "tracker_inv (core_nodes g) st"
    by blast
  note d = tracker_invD[OF inv]
  from n d(3) have nc: "n \<notin> set (alr_counted st)" by blast
  show "map_of hs n = None" using d(6)[of n] nc st by blast
  show "fa ! n = 0" if "n < length fa" using d(2)[of n] nc st that by auto
qed

theorem core_nodes_accumulate_only_witness:
  "well_formed outflow_grid outflow_r outflow_hsd \<and> acyclic_flow outflow_grid outflow_r
   \<and> track_source outflow_grid outflow_r outflow_hsd =
       Some (Inr ([(1, [''A'']), (2, [''A'', ''B'']), (3, [''C''])], [0, 1, 2, 1]))
   \<and> outflow_r 2 = Some 0 \<and> 0 \<notin> set (core_nodes outflow_grid)
   \<and> map_of [(1 :: nat, [''A'']), (2, [''A'', ''B'']), (3, [''C''])] 0 = None
   \<and> [0, 1, 2, 1 :: nat] ! 0 = 0
   \<and> 1 \<le> [0, 1, 2, 1 :: nat] ! 2"
proof -
  have "0 \<notin> set (core_nodes outflow_grid)" "2 \<in> set (core_nodes outflow_grid)"
    "outflow_r 2 = Some 0" "0 < length [0, 1, 2, 1 :: nat]"
    by (simp_all add: outflow_grid_def outflow_r_def)
  then show ?thesis
    using core_nodes_accumulate_only[of outflow_grid outflow_r outflow_hsd
        "[(1, [''A'']), (2, [''A'', ''B'']), (3, [''C''])]" "[0, 1, 2, 1]"]
      outflow_track_source outflow_well_formed outflow_acyclic
    by blast
qed

text \<open>
  Claim C5, as the code has it.  Let \<open>n\<close> be a core node with \<open>r[n] = n\<close> and let the
  run return.  If \<open>n\<close> is the receiver of no other core node, then \<open>flow_accum[n] = 1\<close>
  and \<open>hsd_upstr[n] = [hsd_ids[n]]\<close>.  If \<open>n\<close> is the receiver of another core node
  \<open>m\<close>, then \<open>flow_accum[n]\<close> is at least 2 and \<open>hsd_upstr[n]\<close> has at least two
  entries, so neither equality holds.  The run returns on an input on which no lookup can
  fail and whose receiver map is acyclic.
\<close>

theorem sink_counts_itself_iff_isolated:
  "(well_formed g r hsd_ids \<and> acyclic_flow g r \<longrightarrow>
      (\<exists>hs fa. track_source g r hsd_ids = Some (Inr (hs, fa))))
   \<and> (track_source g r hsd_ids = Some (Inr (hs, fa)) \<and> n \<in> set (core_nodes g) \<and> r n = Some n
        \<and> (\<forall>m \<in> set (core_nodes g). m \<noteq> n \<longrightarrow> r m \<noteq> Some n) \<longrightarrow>
        fa ! n = 1 \<and> (\<exists>x. hsd_ids n = Some x \<and> map_of hs n = Some [x]))
   \<and> (track_source g r hsd_ids = Some (Inr (hs, fa)) \<and> n \<in> set (core_nodes g) \<and> r n = Some n
        \<and> m \<in> set (core_nodes g) \<and> m \<noteq> n \<and> r m = Some n \<longrightarrow>
        2 \<le> fa ! n \<and> fa ! n \<noteq> 1
        \<and> (\<exists>xs. map_of hs n = Some xs \<and> 2 \<le> length xs) \<and> (\<forall>x. map_of hs n \<noteq> Some [x]))"
proof (intro conjI; rule impI)
  assume "well_formed g r hsd_ids \<and> acyclic_flow g r"
  then show "\<exists>hs fa. track_source g r hsd_ids = Some (Inr (hs, fa))"
    using track_source_terminates by blast
next
  assume a: "track_source g r hsd_ids = Some (Inr (hs, fa)) \<and> n \<in> set (core_nodes g) \<and> r n = Some n
        \<and> (\<forall>m \<in> set (core_nodes g). m \<noteq> n \<longrightarrow> r m \<noteq> Some n)"
  then have run: "track_source g r hsd_ids = Some (Inr (hs, fa))" and n: "n \<in> set (core_nodes g)"
    and sink: "r n = Some n" and iso: "\<forall>m \<in> set (core_nodes g). m \<noteq> n \<longrightarrow> r m \<noteq> Some n"
    by blast+
  from run obtain st where
    loop: "track_loop (core_nodes g) r hsd_ids (sor_z_of g)
        \<lparr>alr_counted = [], flow_accum = replicate (number_of_nodes g) 0, hsd_upstr = []\<rparr> = Some (Inr st)"
    and st: "hs = hsd_upstr st" "fa = flow_accum st"
    by (auto simp: track_source_def split: if_splits option.splits sum.splits)
  from track_source_inv[OF run] obtain st' where "hs = hsd_upstr st'" "fa = flow_accum st'"
    "tracker_inv (core_nodes g) st'" "length (flow_accum st') = number_of_nodes g"
    "set (core_nodes g) \<subseteq> set (alr_counted st')" by blast
  with n tracker_invD(4)[of "core_nodes g" st' n] have nN: "n < number_of_nodes g" by auto
  have "flow_accum st ! n = 1 \<and> (\<exists>x. hsd_ids n = Some x \<and> map_of (hsd_upstr st) n = Some [x])"
    using track_loop_isolated[OF iso sink loop] n nN by (simp add: set_sor_z_of)
  then show "fa ! n = 1 \<and> (\<exists>x. hsd_ids n = Some x \<and> map_of hs n = Some [x])"
    using st by simp
next
  assume a: "track_source g r hsd_ids = Some (Inr (hs, fa)) \<and> n \<in> set (core_nodes g) \<and> r n = Some n
        \<and> m \<in> set (core_nodes g) \<and> m \<noteq> n \<and> r m = Some n"
  then have run: "track_source g r hsd_ids = Some (Inr (hs, fa))" and n: "n \<in> set (core_nodes g)"
    and m: "m \<in> set (core_nodes g)" "r m = Some n" "m \<noteq> n"
    by blast+
  from track_source_more[OF run m(1) n m(2) m(3)]
  have two: "2 \<le> fa ! n" and len: "2 \<le> length (upstream hs n)" by simp_all
  from len obtain xs where xs: "map_of hs n = Some xs" "2 \<le> length xs"
    by (cases "map_of hs n") (simp_all add: upstream_def)
  from xs have "map_of hs n \<noteq> Some [x]" for x by auto
  with two xs show "2 \<le> fa ! n \<and> fa ! n \<noteq> 1
        \<and> (\<exists>xs. map_of hs n = Some xs \<and> 2 \<le> length xs) \<and> (\<forall>x. map_of hs n \<noteq> Some [x])"
    by auto
qed

theorem sink_counts_itself_iff_isolated_witness:
  "well_formed outflow_grid outflow_r outflow_hsd \<and> acyclic_flow outflow_grid outflow_r
   \<and> track_source outflow_grid outflow_r outflow_hsd =
       Some (Inr ([(1, [''A'']), (2, [''A'', ''B'']), (3, [''C''])], [0, 1, 2, 1]))
   \<and> 3 \<in> set (core_nodes outflow_grid) \<and> outflow_r 3 = Some 3
   \<and> outflow_r 1 \<noteq> Some 3 \<and> outflow_r 2 \<noteq> Some 3
   \<and> [0, 1, 2, 1 :: nat] ! 3 = 1
   \<and> outflow_hsd 3 = Some ''C''
   \<and> map_of [(1 :: nat, [''A'']), (2, [''A'', ''B'']), (3, [''C''])] 3 = Some [''C'']
   \<and> track_source scenario_grid scenario_r scenario_hsd
       = Some (Inr (scenario_upstr, [0, 1, 1, 3, 4]))
   \<and> 4 \<in> set (core_nodes scenario_grid) \<and> scenario_r 4 = Some 4
   \<and> 3 \<in> set (core_nodes scenario_grid) \<and> scenario_r 3 = Some 4
   \<and> 2 \<le> [0, 1, 1, 3, 4 :: nat] ! 4
   \<and> (\<exists>xs. map_of scenario_upstr 4 = Some xs \<and> 2 \<le> length xs)"
proof -
  have h: "3 \<in> set (core_nodes outflow_grid)" "outflow_r 3 = Some 3"
    "outflow_r 1 \<noteq> Some 3" "outflow_r 2 \<noteq> Some 3" "outflow_hsd 3 = Some ''C''"
    "\<forall>m \<in> set (core_nodes outflow_grid). m \<noteq> 3 \<longrightarrow> outflow_r m \<noteq> Some 3"
    by (simp_all add: outflow_grid_def outflow_r_def outflow_hsd_def)
  from sink_counts_itself_iff_isolated[of outflow_grid outflow_r outflow_hsd
        "[(1, [''A'']), (2, [''A'', ''B'']), (3, [''C''])]" "[0, 1, 2, 1]" 3]
    outflow_track_source h
  have one: "[0, 1, 2, 1 :: nat] ! 3 = 1
     \<and> (\<exists>x. outflow_hsd 3 = Some x
          \<and> map_of [(1 :: nat, [''A'']), (2, [''A'', ''B'']), (3, [''C''])] 3 = Some [x])"
    by blast
  have k: "4 \<in> set (core_nodes scenario_grid)" "scenario_r 4 = Some 4"
    "3 \<in> set (core_nodes scenario_grid)" "scenario_r 3 = Some 4" "(3 :: nat) \<noteq> 4"
    by (simp_all add: scenario_grid_def scenario_r_def)
  have "track_source scenario_grid scenario_r scenario_hsd
          = Some (Inr (scenario_upstr, [0, 1, 1, 3, 4]))
        \<and> 4 \<in> set (core_nodes scenario_grid) \<and> scenario_r 4 = Some 4
        \<and> 3 \<in> set (core_nodes scenario_grid) \<and> (3 :: nat) \<noteq> 4 \<and> scenario_r 3 = Some 4 \<longrightarrow>
        2 \<le> [0, 1, 1, 3, 4 :: nat] ! 4 \<and> [0, 1, 1, 3, 4 :: nat] ! 4 \<noteq> 1
        \<and> (\<exists>xs. map_of scenario_upstr 4 = Some xs \<and> 2 \<le> length xs)
        \<and> (\<forall>x. map_of scenario_upstr 4 \<noteq> Some [x])"
    using sink_counts_itself_iff_isolated[of scenario_grid scenario_r scenario_hsd
        scenario_upstr "[0, 1, 1, 3, 4]" 4 3]
    by (elim conjE)
  with scenario_track_source k
  have two: "2 \<le> [0, 1, 1, 3, 4 :: nat] ! 4
      \<and> (\<exists>xs. map_of scenario_upstr 4 = Some xs \<and> 2 \<le> length xs)"
    by blast
  from h(1-5) one outflow_track_source outflow_well_formed outflow_acyclic
  have first: "well_formed outflow_grid outflow_r outflow_hsd \<and> acyclic_flow outflow_grid outflow_r
   \<and> track_source outflow_grid outflow_r outflow_hsd =
       Some (Inr ([(1, [''A'']), (2, [''A'', ''B'']), (3, [''C''])], [0, 1, 2, 1]))
   \<and> 3 \<in> set (core_nodes outflow_grid) \<and> outflow_r 3 = Some 3
   \<and> outflow_r 1 \<noteq> Some 3 \<and> outflow_r 2 \<noteq> Some 3
   \<and> [0, 1, 2, 1 :: nat] ! 3 = 1
   \<and> outflow_hsd 3 = Some ''C''
   \<and> map_of [(1 :: nat, [''A'']), (2, [''A'', ''B'']), (3, [''C''])] 3 = Some [''C'']"
    by simp
  from first scenario_track_source k(1-4) two show ?thesis by (intro conjI) (elim conjE, assumption)+
qed

text \<open>
  The claim as stated fails on the worked scenario: node 4 is a core node and its own
  receiver, and the run returns \<open>flow_accum[4] = 4\<close> and
  \<open>hsd_upstr[4] = [A, C, D, B]\<close>, not 1 and \<open>[D]\<close>.
\<close>

theorem sink_collects_upstream:
  "track_source scenario_grid scenario_r scenario_hsd = Some (Inr (scenario_upstr, [0, 1, 1, 3, 4]))
   \<and> 4 \<in> set (core_nodes scenario_grid) \<and> scenario_r 4 = Some 4 \<and> scenario_hsd 4 = Some ''D''
   \<and> [0, 1, 1, 3, 4 :: nat] ! 4 = 4 \<and> [0, 1, 1, 3, 4 :: nat] ! 4 \<noteq> 1
   \<and> map_of scenario_upstr 4 = Some [''A'', ''C'', ''D'', ''B'']
   \<and> map_of scenario_upstr 4 \<noteq> Some [''D'']"
  using scenario_track_source
  by (simp add: scenario_grid_def scenario_r_def scenario_hsd_def scenario_upstr_def)

text \<open>
  Claim C3, as the code has it.  The inner loop has no bound and no check for a node seen
  before, and there is no error for a cyclic graph.  When the receiver chain of some core
  node never reaches a node that is its own receiver nor leaves the core set,
  \<open>track_source\<close> never returns its result; and when moreover no lookup can fail, it
  neither returns nor raises: it runs forever.
\<close>

theorem cyclic_graph_never_returns:
  "\<not> acyclic_flow g r \<longrightarrow>
     track_source g r hsd_ids \<noteq> Some (Inr res)
     \<and> (well_formed g r hsd_ids \<longrightarrow> track_source g r hsd_ids = None)"
  using track_source_completes_acyclic[of g r hsd_ids res] track_source_cyclic[of g r hsd_ids]
  by blast

theorem cyclic_graph_never_returns_witness:
  "\<not> acyclic_flow cycle_grid cycle_r \<and> well_formed cycle_grid cycle_r cycle_hsd
   \<and> cycle_r 0 = Some 1 \<and> cycle_r 1 = Some 0
   \<and> track_source cycle_grid cycle_r cycle_hsd = None"
proof -
  have "cycle_r 0 = Some 1" "cycle_r 1 = Some 0" by (simp_all add: cycle_r_def)
  then show ?thesis
    using cyclic_graph_never_returns[of cycle_grid cycle_r cycle_hsd] cycle_not_acyclic
      cycle_well_formed
    by blast
qed

text \<open>
  The claim as stated fails on the mutual cycle of two core nodes: the call has no value
  at all, so it does not end by raising an error.
\<close>

theorem mutual_cycle_runs_forever:
  "cycle_r 0 = Some 1 \<and> cycle_r 1 = Some 0 \<and> core_nodes cycle_grid = [0, 1]
   \<and> track_source cycle_grid cycle_r cycle_hsd = None"
  using cycle_track_source by (simp add: cycle_r_def cycle_grid_def)

section \<open>Properties of \<open>find_unique_upstream_hsd_ids_and_fractions\<close>\<close>

text \<open>
  Claim C6, as the code has it.  However the interpreter lists the keys of a counter, the
  aggregation returns, for every node whose sequence in \<open>hsd_upstr\<close> is not empty, the
  identifiers of the sequence, each once, in the order in which the keys of the counter
  are listed, and a list of fractions of the same length, the fraction at a position being
  the number of occurrences of the identifier at that position divided by the length of
  the sequence; the fractions add up to 1, hence to 1 within \<open>1e-9\<close>.  The order is the
  first-encountered order when the keys are listed in the order of entry.  Division is
  exact here.
\<close>

theorem fractions_of_distinct_identifiers:
  "lists_keys keys_of \<longrightarrow>
   (\<exists>uniq_ids coeff.
      find_unique_upstream_hsd_ids_and_fractions keys_of upstr = Inr (uniq_ids, coeff)
      \<and> (\<forall>ke nums. map_of upstr ke = Some nums \<and> nums \<noteq> [] \<longrightarrow>
            (\<exists>ids cs. map_of uniq_ids ke = Some ids \<and> map_of coeff ke = Some cs
               \<and> ids = keys_of (fold counter_incr nums [])
               \<and> (keys_of = insertion_order \<longrightarrow> ids = first_encountered nums)
               \<and> distinct ids \<and> set ids = set nums
               \<and> length cs = length ids
               \<and> (\<forall>p < length ids.
                     cs ! p = real (count_list nums (ids ! p)) / real (length nums))
               \<and> sum_list cs = 1 \<and> \<bar>sum_list cs - 1\<bar> \<le> 1 / 10 ^ 9)))"
proof
  assume lk: "lists_keys keys_of"
  from find_unique_Inr[OF lk, of upstr] obtain uniq_ids coeff where
    r: "find_unique_upstream_hsd_ids_and_fractions keys_of upstr = Inr (uniq_ids, coeff)"
    and u: "\<forall>ke. map_of uniq_ids ke =
            map_option (\<lambda>nums. keys_of (fold counter_incr nums [])) (map_of upstr ke)"
    and c: "\<forall>ke. map_of coeff ke =
            map_option (\<lambda>nums. map (\<lambda>k. real (count_list nums k) / real (length nums))
                                        (keys_of (fold counter_incr nums []))) (map_of upstr ke)"
    by blast
  have "\<exists>ids cs. map_of uniq_ids ke = Some ids \<and> map_of coeff ke = Some cs
               \<and> ids = keys_of (fold counter_incr nums [])
               \<and> (keys_of = insertion_order \<longrightarrow> ids = first_encountered nums)
               \<and> distinct ids \<and> set ids = set nums
               \<and> length cs = length ids
               \<and> (\<forall>p < length ids.
                     cs ! p = real (count_list nums (ids ! p)) / real (length nums))
               \<and> sum_list cs = 1 \<and> \<bar>sum_list cs - 1\<bar> \<le> 1 / 10 ^ 9"
    if "map_of upstr ke = Some nums \<and> nums \<noteq> []" for ke nums
  proof -
    let ?ids = "keys_of (fold counter_incr nums [])"
    let ?cs = "map (\<lambda>k. real (count_list nums k) / real (length nums)) ?ids"
    from that have m: "map_of upstr ke = Some nums" and ne: "nums \<noteq> []" by simp_all
    note l = counter_listing[OF lk, of nums]
    have "map_of uniq_ids ke = Some ?ids" using u m by simp
    moreover have "map_of coeff ke = Some ?cs" using c m by simp
    moreover have "keys_of = insertion_order \<longrightarrow> ?ids = first_encountered nums"
      by (simp add: insertion_order_def counter_keys)
    moreover have "distinct ?ids" "set ?ids = set nums" using l by simp_all
    moreover have "length ?cs = length ?ids" by simp
    moreover have "\<forall>p < length ?ids. ?cs ! p = real (count_list nums (?ids ! p)) / real (length nums)"
      by simp
    moreover have s: "sum_list ?cs = 1" using ne l by (rule sum_fractions)
    moreover have "\<bar>sum_list ?cs - 1\<bar> \<le> 1 / 10 ^ 9" unfolding s by simp
    ultimately show ?thesis by blast
  qed
  with r show "\<exists>uniq_ids coeff.
      find_unique_upstream_hsd_ids_and_fractions keys_of upstr = Inr (uniq_ids, coeff)
      \<and> (\<forall>ke nums. map_of upstr ke = Some nums \<and> nums \<noteq> [] \<longrightarrow>
            (\<exists>ids cs. map_of uniq_ids ke = Some ids \<and> map_of coeff ke = Some cs
               \<and> ids = keys_of (fold counter_incr nums [])
               \<and> (keys_of = insertion_order \<longrightarrow> ids = first_encountered nums)
               \<and> distinct ids \<and> set ids = set nums
               \<and> length cs = length ids
               \<and> (\<forall>p < length ids.
                     cs ! p = real (count_list nums (ids ! p)) / real (length nums))
               \<and> sum_list cs = 1 \<and> \<bar>sum_list cs - 1\<bar> \<le> 1 / 10 ^ 9))"
    by blast
qed

theorem fractions_of_distinct_identifiers_witness:
  "lists_keys ascending_order
   \<and> map_of [(1 :: nat, [2, 1, 2 :: nat])] 1 = Some [2, 1, 2] \<and> [2, 1, 2 :: nat] \<noteq> []
   \<and> (\<exists>uniq_ids coeff cs.
         find_unique_upstream_hsd_ids_and_fractions ascending_order [(1, [2, 1, 2])]
           = Inr (uniq_ids, coeff)
         \<and> map_of uniq_ids 1 = Some [1, 2] \<and> map_of coeff 1 = Some cs
         \<and> length cs = 2
         \<and> cs ! 0 = real (count_list [2, 1, 2 :: nat] 1) / 3
         \<and> cs ! 1 = real (count_list [2, 1, 2 :: nat] 2) / 3
         \<and> sum_list cs = 1)"
proof -
  have h: "map_of [(1 :: nat, [2, 1, 2 :: nat])] 1 = Some [2, 1, 2] \<and> [2, 1, 2 :: nat] \<noteq> []"
    by simp
  have k: "ascending_order (fold counter_incr [2, 1, 2 :: nat] []) = [1, 2]"
    by (simp add: ascending_order_def counter_incr_def counter_get_def)
  from fractions_of_distinct_identifiers[of ascending_order "[(1, [2, 1, 2])]"]
    lists_keys_ascending_order
  obtain uniq_ids coeff where
    r: "find_unique_upstream_hsd_ids_and_fractions ascending_order [(1, [2, 1, 2])]
         = Inr (uniq_ids, coeff)"
    and a: "\<forall>ke nums. map_of [(1 :: nat, [2, 1, 2 :: nat])] ke = Some nums \<and> nums \<noteq> [] \<longrightarrow>
            (\<exists>ids cs. map_of uniq_ids ke = Some ids \<and> map_of coeff ke = Some cs
               \<and> ids = ascending_order (fold counter_incr nums [])
               \<and> (ascending_order = insertion_order \<longrightarrow> ids = first_encountered nums)
               \<and> distinct ids \<and> set ids = set nums
               \<and> length cs = length ids
               \<and> (\<forall>p < length ids.
                     cs ! p = real (count_list nums (ids ! p)) / real (length nums))
               \<and> sum_list cs = 1 \<and> \<bar>sum_list cs - 1\<bar> \<le> 1 / 10 ^ 9)"
    by blast
  from a h obtain ids cs where g: "map_of uniq_ids 1 = Some ids" "map_of coeff 1 = Some cs"
    "ids = ascending_order (fold counter_incr [2, 1, 2] [])" "length cs = length ids"
    "\<forall>p < length ids. cs ! p = real (count_list [2, 1, 2] (ids ! p)) / real (length [2, 1, 2 :: nat])"
    "sum_list cs = 1"
    by blast
  from g(3) k have ids: "ids = [1, 2]" by simp
  from g(5) ids have "cs ! 0 = real (count_list [2, 1, 2 :: nat] 1) / 3"
    "cs ! 1 = real (count_list [2, 1, 2 :: nat] 2) / 3"
    by simp_all
  with lists_keys_ascending_order h r g(1,2,4,6) ids show ?thesis by auto
qed

text \<open>
  The claim as stated fails where the keys are not listed in the order of entry.  On the
  sequence 2, 1, 2 the first-encountered order is 2, 1; with the keys listed as CPython 2.7
  lists them the call returns the identifiers 1, 2, with the fractions 1/3 and 2/3.
\<close>

theorem keys_not_in_first_encountered_order:
  "find_unique_upstream_hsd_ids_and_fractions ascending_order [(1, [2, 1, 2])] =
     Inr ([(1, [1, 2])], [(1, [1 / 3, 2 / 3])])
   \<and> first_encountered [2, 1, 2 :: nat] = [2, 1]
   \<and> [1, 2] \<noteq> first_encountered [2, 1, 2 :: nat]"
  by (simp add: find_unique_upstream_hsd_ids_and_fractions_def ascending_order_def
      counter_incr_def counter_get_def)

text \<open>
  Claim C8, as the code has it.  The aggregation never signals an error, with the keys of
  a counter listed in the order of entry and however else the interpreter lists them.  For
  a node whose upstream sequence is empty the counter is empty, the comprehension of source
  line 133 runs over no element, so nothing is divided: the node gets an empty list of
  identifiers and an empty list of fractions.
\<close>

theorem empty_sequence_gives_empty_lists:
  "(\<exists>uniq_ids coeff.
      find_unique_upstream_hsd_ids_and_fractions insertion_order upstr = Inr (uniq_ids, coeff)
      \<and> (map_of upstr ke = Some [] \<longrightarrow> map_of uniq_ids ke = Some [] \<and> map_of coeff ke = Some []))
   \<and> (lists_keys keys_of \<longrightarrow>
       (\<exists>uniq_ids coeff.
          find_unique_upstream_hsd_ids_and_fractions keys_of upstr = Inr (uniq_ids, coeff)
          \<and> (map_of upstr ke = Some [] \<longrightarrow>
                map_of uniq_ids ke = Some [] \<and> map_of coeff ke = Some [])))"
proof -
  have general: "\<exists>uniq_ids coeff.
      find_unique_upstream_hsd_ids_and_fractions ko upstr = Inr (uniq_ids, coeff)
      \<and> (map_of upstr ke = Some [] \<longrightarrow> map_of uniq_ids ke = Some [] \<and> map_of coeff ke = Some [])"
    if lk: "lists_keys ko" for ko :: "('a \<times> nat) list \<Rightarrow> 'a list"
  proof -
    from find_unique_Inr[OF lk, of upstr] obtain uniq_ids coeff where
      r: "find_unique_upstream_hsd_ids_and_fractions ko upstr = Inr (uniq_ids, coeff)"
      and u: "\<forall>ke. map_of uniq_ids ke =
              map_option (\<lambda>nums. ko (fold counter_incr nums [])) (map_of upstr ke)"
      and c: "\<forall>ke. map_of coeff ke =
              map_option (\<lambda>nums. map (\<lambda>k. real (count_list nums k) / real (length nums))
                                          (ko (fold counter_incr nums []))) (map_of upstr ke)"
      by blast
    have e: "ko (fold counter_incr [] []) = []"
      using counter_listing(2)[OF lk, of "[]"] by simp
    have "map_of uniq_ids ke = Some [] \<and> map_of coeff ke = Some []" if "map_of upstr ke = Some []"
      using u c that e by simp
    with r show ?thesis by blast
  qed
  show ?thesis
  proof (intro conjI impI)
    show "\<exists>uniq_ids coeff.
      find_unique_upstream_hsd_ids_and_fractions insertion_order upstr = Inr (uniq_ids, coeff)
      \<and> (map_of upstr ke = Some [] \<longrightarrow> map_of uniq_ids ke = Some [] \<and> map_of coeff ke = Some [])"
      using lists_keys_insertion_order by (rule general)
  next
    assume "lists_keys keys_of"
    then show "\<exists>uniq_ids coeff.
          find_unique_upstream_hsd_ids_and_fractions keys_of upstr = Inr (uniq_ids, coeff)
          \<and> (map_of upstr ke = Some [] \<longrightarrow>
                map_of uniq_ids ke = Some [] \<and> map_of coeff ke = Some [])"
      by (rule general)
  qed
qed

theorem empty_sequence_gives_empty_lists_witness:
  "lists_keys (\<lambda>cnt. rev (map fst cnt) :: string list)
   \<and> map_of [(1 :: nat, [''A'']), (2, [])] 2 = Some []
   \<and> (\<exists>uniq_ids coeff.
         find_unique_upstream_hsd_ids_and_fractions (\<lambda>cnt. rev (map fst cnt))
             [(1 :: nat, [''A'']), (2, [])]
           = Inr (uniq_ids, coeff)
         \<and> map_of uniq_ids 2 = Some [] \<and> map_of coeff 2 = Some [])"
proof -
  have lk: "lists_keys (\<lambda>cnt. rev (map fst cnt) :: string list)" by (rule lists_keys_rev)
  have h: "map_of [(1 :: nat, [''A'']), (2, [])] 2 = Some []" by simp
  have "lists_keys (\<lambda>cnt. rev (map fst cnt) :: string list) \<longrightarrow>
       (\<exists>uniq_ids coeff.
          find_unique_upstream_hsd_ids_and_fractions (\<lambda>cnt. rev (map fst cnt))
              [(1 :: nat, [''A'']), (2, [])]
            = Inr (uniq_ids, coeff)
          \<and> (map_of [(1 :: nat, [''A'']), (2, [])] 2 = Some [] \<longrightarrow>
                map_of uniq_ids 2 = Some [] \<and> map_of coeff 2 = Some []))"
    using empty_sequence_gives_empty_lists[of "[(1 :: nat, [''A'']), (2, [])]" 2
        "\<lambda>cnt. rev (map fst cnt)"]
    by (rule conjunct2)
  with lk h show ?thesis by blast
qed

text \<open>
  The claim as stated fails on a dictionary with an empty sequence at node 2: the call
  returns, with empty lists at that node, and signals no error.
\<close>

theorem empty_sequence_no_error:
  "find_unique_upstream_hsd_ids_and_fractions insertion_order [(1 :: nat, [''A'']), (2, [])] =
     Inr ([(1, [''A'']), (2, [])], [(1, [1]), (2, [])])"
  by (simp add: find_unique_upstream_hsd_ids_and_fractions_def insertion_order_def
      counter_incr_def counter_get_def)

section \<open>Properties of \<open>convert_arc_flow_directions_to_landlab_node_ids\<close>\<close>

lemma raster_arrays:
  "length (diagonals_at_node raster_grid) = length (neighbors_at_node raster_grid)"
  "\<forall>c \<in> set (core_nodes raster_grid).
      c < length (neighbors_at_node raster_grid) \<and> c < length [0, 0, 0, 0, x, 0, 0, 0, 0 :: int]
      \<and> c < number_of_nodes raster_grid"
  by (simp_all add: raster_grid_def)

lemma log2_astype_int_values:
  "log2_astype_int 0 = - (2 ^ 63)" "log2_astype_int 3 = 1" "log2_astype_int 32 = 5"
proof -
  show "log2_astype_int 0 = - (2 ^ 63)" by (simp add: log2_astype_int_def)
  have "floor_log2 3 = 1" by (simp add: floor_log2.simps)
  then show "log2_astype_int 3 = 1" by (simp add: log2_astype_int_def)
  have "floor_log2 32 = 5" using floor_log2_power[of 5] by simp
  then show "log2_astype_int 32 = 5" by (simp add: log2_astype_int_def)
qed

lemma raster_decode_3:
  "convert_arc_flow_directions_to_landlab_node_ids raster_grid [0, 0, 0, 0, 3, 0, 0, 0, 0] =
     Inr [0, 0, 0, 0, 2, 0, 0, 0, 0]"
  by (simp add: convert_arc_flow_directions_to_landlab_node_ids_def raster_grid_def
      neighbors_cw_def fliplr_def hsplit_def hstack_def take_at_def np_choose_def put_at_def
      log2_astype_int_values upt_rec eval_nat_numeral)




text \<open>
  Claim C4, as the code has it.  The decoder has no check of the codes.  The logarithm of
  the code of a core node is cut to its whole part, so a code between 1 and 255 that is no
  power of two is taken for the power of two below it: the receiver is the neighbour at
  position \<open>floor_log2\<close> of the code.  Only a code of a core node below 1 or above 255
  makes the call fail, with the \<open>ValueError\<close> of \<open>np.choose\<close> for the whole call.
\<close>

theorem flow_codes_truncated_or_rejected:
  assumes "length (diagonals_at_node g) = length (neighbors_at_node g)"
    and "\<forall>c \<in> set (core_nodes g).
        c < length (neighbors_at_node g) \<and> c < length flow_dir_arc \<and> c < number_of_nodes g"
  shows "((\<forall>c \<in> set (core_nodes g). 1 \<le> flow_dir_arc ! c \<and> flow_dir_arc ! c \<le> 255) \<longrightarrow>
          (\<exists>r. convert_arc_flow_directions_to_landlab_node_ids g flow_dir_arc = Inr r
             \<and> (\<forall>n \<in> set (core_nodes g).
                   r ! n = clockwise_from_east (neighbors_at_node g ! n) (diagonals_at_node g ! n)
                             ! floor_log2 (nat (flow_dir_arc ! n)))))
       \<and> ((\<exists>c \<in> set (core_nodes g). flow_dir_arc ! c \<le> 0 \<or> 256 \<le> flow_dir_arc ! c) \<longrightarrow>
            convert_arc_flow_directions_to_landlab_node_ids g flow_dir_arc = Inl ValueError)"
proof (rule conjI; rule impI)
  assume "\<forall>c \<in> set (core_nodes g). 1 \<le> flow_dir_arc ! c \<and> flow_dir_arc ! c \<le> 255"
  from decoder_Inr[OF assms this]
  show "\<exists>r. convert_arc_flow_directions_to_landlab_node_ids g flow_dir_arc = Inr r
             \<and> (\<forall>n \<in> set (core_nodes g).
                   r ! n = clockwise_from_east (neighbors_at_node g ! n) (diagonals_at_node g ! n)
                             ! floor_log2 (nat (flow_dir_arc ! n)))"
    by blast
next
  assume bad: "\<exists>c \<in> set (core_nodes g). flow_dir_arc ! c \<le> 0 \<or> 256 \<le> flow_dir_arc ! c"
  from assms(2) have "\<forall>c \<in> set (core_nodes g).
        c < length (neighbors_at_node g) \<and> c < length flow_dir_arc" by blast
  from decoder_ValueError[OF assms(1) this bad]
  show "convert_arc_flow_directions_to_landlab_node_ids g flow_dir_arc = Inl ValueError" .
qed

theorem flow_codes_truncated_or_rejected_witness:
  "length (diagonals_at_node raster_grid) = length (neighbors_at_node raster_grid)
   \<and> core_nodes raster_grid = [4]
   \<and> [0, 0, 0, 0, 3, 0, 0, 0, 0 :: int] ! 4 = 3
   \<and> (\<exists>r. convert_arc_flow_directions_to_landlab_node_ids raster_grid [0, 0, 0, 0, 3, 0, 0, 0, 0] = Inr r
         \<and> r ! 4 = clockwise_from_east (neighbors_at_node raster_grid ! 4)
                     (diagonals_at_node raster_grid ! 4) ! floor_log2 3)
   \<and> [0, 0, 0, 0, 256, 0, 0, 0, 0 :: int] ! 4 = 256
   \<and> convert_arc_flow_directions_to_landlab_node_ids raster_grid [0, 0, 0, 0, 256, 0, 0, 0, 0] =
       Inl ValueError"
proof -
  have c4: "core_nodes raster_grid = [4]" by (simp add: raster_grid_def)
  have good: "\<forall>c \<in> set (core_nodes raster_grid).
      1 \<le> [0, 0, 0, 0, 3, 0, 0, 0, 0 :: int] ! c \<and> [0, 0, 0, 0, 3, 0, 0, 0, 0 :: int] ! c \<le> 255"
    by (simp add: raster_grid_def)
  have bad: "\<exists>c \<in> set (core_nodes raster_grid).
      [0, 0, 0, 0, 256, 0, 0, 0, 0 :: int] ! c \<le> 0 \<or> 256 \<le> [0, 0, 0, 0, 256, 0, 0, 0, 0 :: int] ! c"
    by (simp add: raster_grid_def)
  from flow_codes_truncated_or_rejected[OF raster_arrays(1) raster_arrays(2), of 3] good c4
  have a: "\<exists>r. convert_arc_flow_directions_to_landlab_node_ids raster_grid [0, 0, 0, 0, 3, 0, 0, 0, 0] = Inr r
         \<and> r ! 4 = clockwise_from_east (neighbors_at_node raster_grid ! 4)
                     (diagonals_at_node raster_grid ! 4) ! floor_log2 3"
    by auto
  from flow_codes_truncated_or_rejected[OF raster_arrays(1) raster_arrays(2), of 256] bad
  have b: "convert_arc_flow_directions_to_landlab_node_ids raster_grid [0, 0, 0, 0, 256, 0, 0, 0, 0] =
       Inl ValueError"
    by blast
  from a b c4 raster_arrays(1) show ?thesis by simp
qed

text \<open>
  The claim as stated fails on the raster with the code 3 at the core node 4: 3 is no
  power of two, and the call returns, with node 2 (the neighbour to the southeast, position
  1) as the receiver of node 4, and signals no error.
\<close>

theorem code_three_is_coerced:
  "core_nodes raster_grid = [4] \<and> [0, 0, 0, 0, 3, 0, 0, 0, 0 :: int] ! 4 = 3
   \<and> convert_arc_flow_directions_to_landlab_node_ids raster_grid [0, 0, 0, 0, 3, 0, 0, 0, 0] =
       Inr [0, 0, 0, 0, 2, 0, 0, 0, 0]
   \<and> clockwise_from_east (neighbors_at_node raster_grid ! 4) (diagonals_at_node raster_grid ! 4) ! 1 = 2"
  using raster_decode_3 by (simp add: raster_grid_def clockwise_from_east_def)

lemma scenario_track_source_h:
  "track_source_h (grid_refs scenario_grid) 4 5 scenario_heap =
     Some (Inr (12, 11),
       scenario_heap @
       [Elevations [10, 9, 5, 1], Nodes [3, 2, 1, 0], Nodes [1, 2, 3, 4], Nodes [1, 3, 4, 2],
        Nodes [0, 1, 1, 3, 4], Dict [(1, 14), (3, 16), (4, 18), (2, 21)],
        Buffer [''A'', ''C'', ''D''], Buffer [''A''], Dict [(1, 14)],
        Buffer [''A'', ''C'', ''B''], Dict [(3, 16)],
        Buffer [''A'', ''C'', ''D'', ''B''], Dict [(4, 18)], Buffer [''B''],
        Buffer [''B''], Dict [(2, 21)], Buffer [''B''], Buffer [''B'']])"
  by (simp add: track_source_h_def allocate_state_h_def grid_refs_def scenario_heap_def
      store_inputs_def scenario_grid_def scenario_r_def scenario_hsd_def alloc_def
      elevations_at_def nodes_at_def receivers_at_def sources_at_def buffer_at_def dict_at_def
      obj_at_def argsort_def segment_loop_h.simps segment_step_h_def visit_node_h_def
      count_node_h_def store_buffer_h_def visit_sink_h_def Let_def eval_nat_numeral)

lemma raster_convert_h:
  "convert_arc_flow_directions_to_landlab_node_ids_h (grid_refs raster_grid) 6 raster_heap =
     (Inr 9,
      raster_heap @
      [Codes [- (2 ^ 63), - (2 ^ 63), - (2 ^ 63), - (2 ^ 63), 5, - (2 ^ 63), - (2 ^ 63),
         - (2 ^ 63), - (2 ^ 63)],
       Stacked
        [[1, - 1, - 1, - 1, - 1, - 1, 3, 4], [2, - 1, - 1, - 1, 0, 3, 4, 5],
         [- 1, - 1, - 1, - 1, 1, 4, 5, - 1], [4, 1, 0, - 1, - 1, - 1, 6, 7],
         [5, 2, 1, 0, 3, 6, 7, 8], [- 1, - 1, 2, 1, 4, 7, 8, - 1],
         [7, 4, 3, - 1, - 1, - 1, - 1, - 1], [8, 5, 4, 3, 6, - 1, - 1, - 1],
         [- 1, - 1, 5, 4, 7, - 1, - 1, - 1]],
       Codes [0, 0, 0, 0, 6, 0, 0, 0, 0], Codes [5],
       Stacked [[5, 2, 1, 0, 3, 6, 7, 8]], Codes [6]])"
  by (simp add: convert_arc_flow_directions_to_landlab_node_ids_h_def grid_refs_def
      raster_heap_def store_inputs_def raster_grid_def alloc_def codes_at_def rows_at_def
      stacked_at_def nodes_at_def obj_at_def fliplr_def hsplit_def hstack_def take_at_def
      np_choose_def put_at_def log2_astype_int_values upt_rec Let_def eval_nat_numeral)

text \<open>
  Claim C9.  A call of \<open>track_source\<close> that returns or raises, and every call of the
  decoder, leaves every object that was in the store before the call as it was: the
  store after the call starts with the store before it.  This holds for any store and any
  addresses given as arguments, so in particular the elevation field, the receiver map,
  the HSD assignment, the codes and the arrays of the mesh are the same before and after
  the call, also when two arguments are the same object.  Everything the two functions
  write to is an object that the call itself has created.
\<close>

theorem inputs_unchanged:
  "(track_source_h gr r_at hsd_at h = Some (res, h') \<longrightarrow>
      length h \<le> length h' \<and> take (length h) h' = h)
   \<and> length h \<le> length (snd (convert_arc_flow_directions_to_landlab_node_ids_h gr fd_ref h))
   \<and> take (length h) (snd (convert_arc_flow_directions_to_landlab_node_ids_h gr fd_ref h)) = h"
proof (intro conjI impI)
  assume "track_source_h gr r_at hsd_at h = Some (res, h')"
  then have "keeps (length h) h h'" by (rule track_source_h_keeps)
  then show "length h \<le> length h'" "take (length h) h' = h" by (simp_all add: keeps_def)
next
  have "keeps (length h) h (snd (convert_arc_flow_directions_to_landlab_node_ids_h gr fd_ref h))"
    by (rule convert_h_keeps)
  then show
    "length h \<le> length (snd (convert_arc_flow_directions_to_landlab_node_ids_h gr fd_ref h))"
    "take (length h) (snd (convert_arc_flow_directions_to_landlab_node_ids_h gr fd_ref h)) = h"
    by (simp_all add: keeps_def)
qed

theorem inputs_unchanged_witness:
  "(\<exists>h'. track_source_h (grid_refs scenario_grid) 4 5 scenario_heap = Some (Inr (12, 11), h')
        \<and> length h' = 25 \<and> take 7 h' = scenario_heap
        \<and> receivers_at h' 4 = scenario_r \<and> sources_at h' 5 = scenario_hsd
        \<and> elevations_at h' 0 = topographic_elevation scenario_grid)
   \<and> (\<exists>h'. convert_arc_flow_directions_to_landlab_node_ids_h (grid_refs raster_grid) 6
              raster_heap = (Inr 9, h')
        \<and> length h' = 13 \<and> take 7 h' = raster_heap
        \<and> codes_at h' 6 = [0, 0, 0, 0, 32, 0, 0, 0, 0]
        \<and> rows_at h' 2 = neighbors_at_node raster_grid)"
proof (rule conjI)
  obtain h' where run: "track_source_h (grid_refs scenario_grid) 4 5 scenario_heap
      = Some (Inr (12, 11), h')" and len: "length h' = 25"
    using scenario_track_source_h by (simp add: scenario_heap_def store_inputs_def)
  have "track_source_h (grid_refs scenario_grid) 4 5 scenario_heap = Some (Inr (12, 11), h')
      \<longrightarrow> length scenario_heap \<le> length h' \<and> take (length scenario_heap) h' = scenario_heap"
    using inputs_unchanged[of "grid_refs scenario_grid" 4 5 scenario_heap "Inr (12, 11)" h']
    by (rule conjunct1)
  with run have "take (length scenario_heap) h' = scenario_heap" by blast
  moreover have l: "length (scenario_heap :: string heap) = 7"
    by (simp add: scenario_heap_def store_inputs_def)
  ultimately have tk: "take 7 h' = scenario_heap" by simp
  have "h' ! p = scenario_heap ! p" if "p < 7" for p
    using nth_take[of p 7 h'] that tk by simp
  then have "h' ! 0 = scenario_heap ! 0" "h' ! 4 = scenario_heap ! 4" "h' ! 5 = scenario_heap ! 5"
    by simp_all
  then have "receivers_at h' 4 = scenario_r" "sources_at h' 5 = scenario_hsd"
    "elevations_at h' 0 = topographic_elevation scenario_grid"
    using len
    by (simp_all add: receivers_at_def sources_at_def elevations_at_def obj_at_def
        scenario_heap_def store_inputs_def)
  with run len tk show "\<exists>h'. track_source_h (grid_refs scenario_grid) 4 5 scenario_heap
        = Some (Inr (12, 11), h')
      \<and> length h' = 25 \<and> take 7 h' = scenario_heap
      \<and> receivers_at h' 4 = scenario_r \<and> sources_at h' 5 = scenario_hsd
      \<and> elevations_at h' 0 = topographic_elevation scenario_grid"
    by blast
next
  obtain h' where run: "convert_arc_flow_directions_to_landlab_node_ids_h (grid_refs raster_grid) 6
      raster_heap = (Inr 9, h')" and len: "length h' = 13"
    using raster_convert_h by (simp add: raster_heap_def store_inputs_def)
  have "take (length raster_heap)
      (snd (convert_arc_flow_directions_to_landlab_node_ids_h (grid_refs raster_grid) 6
        (raster_heap :: string heap))) = raster_heap"
    using inputs_unchanged[of "grid_refs raster_grid" 4 5 raster_heap "Inl ValueError" "[]" 6]
    by blast
  moreover have l: "length (raster_heap :: string heap) = 7"
    by (simp add: raster_heap_def store_inputs_def)
  ultimately have tk: "take 7 h' = raster_heap" using run by simp
  have "h' ! p = raster_heap ! p" if "p < 7" for p
    using nth_take[of p 7 h'] that tk by simp
  then have "h' ! 2 = raster_heap ! 2" "h' ! 6 = raster_heap ! 6"
    by simp_all
  then have "codes_at h' 6 = [0, 0, 0, 0, 32, 0, 0, 0, 0]"
    "rows_at h' 2 = neighbors_at_node raster_grid"
    using len
    by (simp_all add: codes_at_def rows_at_def obj_at_def raster_heap_def store_inputs_def)
  with run len tk show "\<exists>h'. convert_arc_flow_directions_to_landlab_node_ids_h
        (grid_refs raster_grid) 6 raster_heap = (Inr 9, h')
      \<and> length h' = 13 \<and> take 7 h' = raster_heap
      \<and> codes_at h' 6 = [0, 0, 0, 0, 32, 0, 0, 0, 0]
      \<and> rows_at h' 2 = neighbors_at_node raster_grid"
    by blast
qed

end
